theory Spec2Isabelle
  imports Main "HOL-Library.Monad_Syntax"
begin

section \<open>The straightforward register allocator of Maglev\<close>

text \<open>
  The development embeds \<^verbatim>\<open>StraightForwardRegisterAllocator\<close> (maglev-regalloc.cc) and
  the merge-state helpers of maglev-regalloc-data.h.

  Conventions of the embedding.
  \<^item> Every function takes the allocator state and returns the updated one. A function that
    can reach \<^verbatim>\<open>UNREACHABLE()\<close>, dereference a null pointer or index outside an array
    returns an \<open>option\<close>: \<open>None\<close> is the aborted compilation. \<^verbatim>\<open>DCHECK\<close>s are debug-only
    and are not part of the release behaviour that is modelled.
  \<^item> A \<^verbatim>\<open>ValueNode*\<close> is the immutable view of the node it points to (its id, the end of its
    live range and its first use); nodes of a graph have distinct ids, so equality of views
    is pointer equality.
  \<^item> A \<^verbatim>\<open>LiveNodeInfo*\<close> always points into the table \<^verbatim>\<open>values_\<close>; it is modelled by the key
    of its entry, and dereferencing it is a lookup in the table.
  \<^item> Node ids are natural numbers, stack slot indices are integers (negative for the
    caller-provided slots).
\<close>

subsection \<open>Registers and operands\<close>

text \<open>
  The macro \<^verbatim>\<open>ALWAYS_ALLOCATABLE_GENERAL_REGISTERS\<close> is not part of the sources. A register
  is identified with its position in that list, so \<^verbatim>\<open>MapIndexToRegister\<close> and
  \<^verbatim>\<open>MapRegisterToIndex\<close> are inverse to each other on \<open>[0, N)\<close> and reach
  \<^verbatim>\<open>UNREACHABLE()\<close> elsewhere; \<open>N\<close> is \<^verbatim>\<open>kAllocatableGeneralRegisterCount\<close>, the length
  of the register file.
\<close>

datatype Register = no_reg | Reg nat

fun MapRegisterToIndex :: "nat \<Rightarrow> Register \<Rightarrow> nat option" where
  "MapRegisterToIndex N no_reg = None"
| "MapRegisterToIndex N (Reg c) = (if c < N then Some c else None)"

definition MapIndexToRegister :: "nat \<Rightarrow> nat \<Rightarrow> Register option" where
  "MapIndexToRegister N i = (if i < N then Some (Reg i) else None)"

text \<open>All operands of this allocator have the representation \<^verbatim>\<open>kTagged\<close>; it is left out.\<close>

datatype AllocatedOperand = REGISTER nat | STACK_SLOT int

fun IsRegister :: "AllocatedOperand \<Rightarrow> bool" where
  "IsRegister (REGISTER c) = True"
| "IsRegister (STACK_SLOT i) = False"

fun reg_operand :: "Register \<Rightarrow> AllocatedOperand option" where
  "reg_operand (Reg c) = Some (REGISTER c)"
| "reg_operand no_reg = None"

datatype ExtendedPolicy =
    NONE | REGISTER_OR_SLOT | REGISTER_OR_SLOT_OR_CONSTANT | FIXED_REGISTER
  | FIXED_FP_REGISTER | MUST_HAVE_REGISTER | MUST_HAVE_SLOT | SAME_AS_INPUT

text \<open>
  An unallocated operand has the basic policy \<^verbatim>\<open>FIXED_SLOT\<close> with its slot index, or an
  extended policy with the fixed register code or the input index that goes with it.
\<close>

datatype UnallocatedOperand = FIXED_SLOT int | EXTENDED_POLICY ExtendedPolicy nat

subsection \<open>Nodes\<close>

record ValueNode =
  node_id :: nat
  live_range_end :: nat
  first_use :: nat

record Input =
  input_node :: ValueNode
  next_use_id :: nat
  input_operand :: UnallocatedOperand

text \<open>
  A node: its id, inputs, number of temporaries, the two properties the allocator reads, and,
  for a value node, the end of its live range, its first use and the policy of its result.
\<close>

record Node =
  nd_id :: nat
  nd_inputs :: "Input list"
  num_temporaries_needed :: nat
  is_call :: bool
  can_deopt :: bool
  nd_value :: "(nat \<times> nat \<times> UnallocatedOperand) option"

definition Is_ValueNode :: "Node \<Rightarrow> bool" where
  "Is_ValueNode n = (nd_value n \<noteq> None)"

definition Cast_ValueNode :: "Node \<Rightarrow> ValueNode option" where
  "Cast_ValueNode n =
     (case nd_value n of
        None \<Rightarrow> None
      | Some (e, u, p) \<Rightarrow> Some \<lparr>node_id = nd_id n, live_range_end = e, first_use = u\<rparr>)"

definition result_policy :: "Node \<Rightarrow> UnallocatedOperand option" where
  "result_policy n = (case nd_value n of None \<Rightarrow> None | Some (e, u, p) \<Rightarrow> Some p)"

subsection \<open>Liveness records and the allocator state\<close>

record LiveNodeInfo =
  node :: ValueNode
  last_use :: nat
  next_use :: nat
  stack_slot :: "int option"
  reg :: Register

text \<open>
  Modelled from the spec: \<^verbatim>\<open>LiveNodeInfo::allocation()\<close> is declared in maglev-regalloc.h,
  which is not part of the sources. The current location of a record is its register when
  the register field is set and its stack slot otherwise; with neither, the null stack slot
  is dereferenced.
\<close>

definition allocation :: "LiveNodeInfo \<Rightarrow> AllocatedOperand option" where
  "allocation info =
     (case reg info of
        Reg c \<Rightarrow> Some (REGISTER c)
      | no_reg \<Rightarrow> (case stack_slot info of None \<Rightarrow> None | Some i \<Rightarrow> Some (STACK_SLOT i)))"

subsection \<open>Blocks and merge states\<close>

text \<open>
  A \<^verbatim>\<open>RegisterState\<close> is a pointer with the two flags \<^verbatim>\<open>is_initialized\<close> and \<^verbatim>\<open>is_merge\<close>:
  the default value (null, no flag), a record or null with \<^verbatim>\<open>initialized_node\<close>, or a
  \<^verbatim>\<open>RegisterMerge\<close> with \<^verbatim>\<open>initialized_merge\<close>. A \<^verbatim>\<open>RegisterMerge\<close> is referenced from
  one entry only, so it is kept by value.
\<close>

record RegisterMerge =
  merge_node :: ValueNode
  operands :: "AllocatedOperand list"

datatype RegisterState =
    NotInitialized
  | NodeState "ValueNode option"
  | MergeState RegisterMerge

fun is_initialized :: "RegisterState \<Rightarrow> bool" where
  "is_initialized NotInitialized = False"
| "is_initialized (NodeState p) = True"
| "is_initialized (MergeState m) = True"

fun LoadMergeState :: "RegisterState \<Rightarrow> ValueNode option \<times> RegisterMerge option" where
  "LoadMergeState (MergeState m) = (Some (merge_node m), Some m)"
| "LoadMergeState (NodeState p) = (p, None)"
| "LoadMergeState NotInitialized = (None, None)"

text \<open>
  A control node is a node with its kind; the targets of jumps and branches and the next
  post-dominating hole are blocks, given by their position in the graph (a control node is
  identified with the block it ends; \<open>None\<close> is the null pointer).
\<close>

datatype ControlKind = Jump nat | JumpLoop nat | ConditionalControlNode nat nat | Return

record ControlNode = Node +
  kind :: ControlKind
  next_post_dominating_hole :: "nat option"

text \<open>A phi is a value with one input for each predecessor of its block.\<close>

record Phi =
  phi_node :: ValueNode
  phi_inputs :: "Input list"

text \<open>
  The accessors of \<^verbatim>\<open>BasicBlock\<close> and of its merge state are declared in headers that are
  not part of the sources; a block is the record of what they return. Blocks refer to each
  other by their position in the graph. The register state of a block that has a merge state
  is an array of \<open>N\<close> entries; it is kept in the allocator state.
\<close>

record BasicBlock =
  first_id :: nat
  FirstNonGapMoveId :: nat
  is_empty_block :: bool
  predecessor_id :: nat
  predecessor_count :: nat
  phis :: "Phi list"
  nodes :: "Node list"
  control_node :: ControlNode

type_synonym Graph = "BasicBlock list"

text \<open>What the trace flag makes the allocator print; the text itself is the printer's.\<close>

datatype hole_event = HoleJump nat nat | HoleReturn nat | HoleLoop nat

datatype trace_event =
    TraceGapMove "AllocatedOperand" "AllocatedOperand"
  | TraceFreeMove ValueNode "AllocatedOperand" "AllocatedOperand"
  | TraceSpill int ValueNode
  | TraceProcess nat
  | TraceLiveRegs "(nat \<times> nat option) list"
  | TracePhi string nat "AllocatedOperand option"
  | TraceBlock nat
  | TraceHoles "hole_event list"
  | TraceGraph

text \<open>
  The state of one allocator instance. Besides the members of the class it holds what the
  allocator writes into the graph: the operands set on inputs (keyed by the id of the owning
  node and the position of the input), the operands set on results, the spill slot recorded
  on a value node, the temporaries of a node, the register states of the blocks that have a
  merge state (keyed by the position of the block) and the gap moves, each with the position
  of the cursor (block index and the id of the node it is inserted before, \<open>None\<close> at the
  control node) at which it was inserted.
\<close>

record Allocator =
  register_values :: "ValueNode option list"
  values_tbl :: "ValueNode \<rightharpoonup> LiveNodeInfo"
  free_slots :: "int list"
  top_of_stack :: int
  block_it :: nat
  node_it :: "nat option"
  input_allocated :: "(nat \<times> nat) \<rightharpoonup> AllocatedOperand"
  result_allocated :: "ValueNode \<rightharpoonup> AllocatedOperand"
  node_spill :: "ValueNode \<rightharpoonup> AllocatedOperand"
  temporaries :: "nat \<rightharpoonup> Register set"
  register_state :: "nat \<rightharpoonup> RegisterState list"
  gap_moves :: "(nat \<times> nat option \<times> AllocatedOperand \<times> AllocatedOperand) list"
  trace_regalloc :: bool
  os :: "trace_event list"

definition kAllocatableGeneralRegisterCount :: "Allocator \<Rightarrow> nat" where
  "kAllocatableGeneralRegisterCount s = length (register_values s)"

definition trace :: "trace_event \<Rightarrow> Allocator \<Rightarrow> Allocator" where
  "trace e s = (if trace_regalloc s then s\<lparr>os := os s @ [e]\<rparr> else s)"

definition set_info :: "ValueNode \<Rightarrow> LiveNodeInfo \<Rightarrow> Allocator \<Rightarrow> Allocator" where
  "set_info p info s = s\<lparr>values_tbl := (values_tbl s)(p \<mapsto> info)\<rparr>"

subsection \<open>Releasing dead values\<close>

text \<open>The loop of \<^verbatim>\<open>UpdateInputUseAndClearDead\<close> that clears every register holding the record.\<close>

definition clear_registers_of :: "ValueNode \<Rightarrow> ValueNode option list \<Rightarrow> ValueNode option list" where
  "clear_registers_of p rv = map (\<lambda>e. if e \<noteq> Some p then e else None) rv"

definition UpdateInputUseAndClearDead :: "nat \<Rightarrow> Input \<Rightarrow> Allocator \<Rightarrow> Allocator option" where
  "UpdateInputUseAndClearDead use input s =
     (let nd = input_node input; it = values_tbl s nd in
      if live_range_end nd = use then
        (case it of
           None \<Rightarrow> Some s
         | Some info \<Rightarrow>
             let s1 = s\<lparr>register_values := clear_registers_of nd (register_values s)\<rparr>;
                 s2 = (case stack_slot info of
                         None \<Rightarrow> s1
                       | Some i \<Rightarrow> if i > 0 then s1\<lparr>free_slots := free_slots s1 @ [i]\<rparr> else s1)
             in Some (s2\<lparr>values_tbl := (values_tbl s2)(nd := None)\<rparr>))
      else
        (case it of
           None \<Rightarrow> None
         | Some info \<Rightarrow> Some (set_info nd (info\<lparr>next_use := next_use_id input\<rparr>) s)))"

text \<open>The loop \<^verbatim>\<open>for (Input& input : *node) UpdateInputUseAndClearDead(node->id(), input)\<close>.\<close>

fun UpdateInputs :: "nat \<Rightarrow> Input list \<Rightarrow> Allocator \<Rightarrow> Allocator option" where
  "UpdateInputs use [] s = Some s"
| "UpdateInputs use (input # rest) s =
     (case UpdateInputUseAndClearDead use input s of
        None \<Rightarrow> None
      | Some s1 \<Rightarrow> UpdateInputs use rest s1)"

subsection \<open>Spilling\<close>

definition AllocateSpillSlot :: "ValueNode \<Rightarrow> Allocator \<Rightarrow> Allocator option" where
  "AllocateSpillSlot p s =
     (case values_tbl s p of
        None \<Rightarrow> None
      | Some info \<Rightarrow>
          (case free_slots s of
             [] \<Rightarrow> Some (set_info p (info\<lparr>stack_slot := Some (top_of_stack s)\<rparr>)
                           (s\<lparr>top_of_stack := top_of_stack s + 1\<rparr>))
           | slot # rest \<Rightarrow> Some (set_info p (info\<lparr>stack_slot := Some slot\<rparr>)
                                   (s\<lparr>free_slots := rest\<rparr>))))"

definition Spill :: "ValueNode \<Rightarrow> Allocator \<Rightarrow> Allocator option" where
  "Spill p s =
     (case values_tbl s p of
        None \<Rightarrow> None
      | Some info \<Rightarrow>
          if stack_slot info \<noteq> None then Some s
          else do {
            s1 \<leftarrow> AllocateSpillSlot p s;
            info1 \<leftarrow> values_tbl s1 p;
            slot \<leftarrow> stack_slot info1;
            let s2 = trace (TraceSpill slot (node info1)) s1;
            Some (s2\<lparr>node_spill := (node_spill s2)(node info1 \<mapsto> STACK_SLOT slot)\<rparr>)
          })"

fun SpillRegisters_loop :: "nat list \<Rightarrow> Allocator \<Rightarrow> Allocator option" where
  "SpillRegisters_loop [] s = Some s"
| "SpillRegisters_loop (i # rest) s =
     (case register_values s ! i of
        None \<Rightarrow> SpillRegisters_loop rest s
      | Some p \<Rightarrow>
          (case Spill p s of
             None \<Rightarrow> None
           | Some s1 \<Rightarrow> SpillRegisters_loop rest s1))"

definition SpillRegisters :: "Allocator \<Rightarrow> Allocator option" where
  "SpillRegisters s = SpillRegisters_loop [0..<kAllocatableGeneralRegisterCount s] s"

fun SpillAndClearRegisters_loop :: "nat list \<Rightarrow> Allocator \<Rightarrow> Allocator option" where
  "SpillAndClearRegisters_loop [] s = Some s"
| "SpillAndClearRegisters_loop (i # rest) s =
     (case register_values s ! i of
        None \<Rightarrow> SpillAndClearRegisters_loop rest s
      | Some p \<Rightarrow>
          (case Spill p s of
             None \<Rightarrow> None
           | Some s1 \<Rightarrow>
               (case values_tbl s1 p of
                  None \<Rightarrow> None
                | Some info \<Rightarrow>
                    SpillAndClearRegisters_loop rest
                      ((set_info p (info\<lparr>reg := no_reg\<rparr>) s1)
                         \<lparr>register_values := (register_values s1)[i := None]\<rparr>))))"

definition SpillAndClearRegisters :: "Allocator \<Rightarrow> Allocator option" where
  "SpillAndClearRegisters s =
     SpillAndClearRegisters_loop [0..<kAllocatableGeneralRegisterCount s] s"

subsection \<open>Register allocation primitives\<close>

definition AddMoveBeforeCurrentNode :: "AllocatedOperand \<Rightarrow> AllocatedOperand \<Rightarrow> Allocator \<Rightarrow> Allocator" where
  "AddMoveBeforeCurrentNode source target s =
     s\<lparr>gap_moves := gap_moves s @ [(block_it s, node_it s, source, target)]\<rparr>"

definition SetRegister :: "Register \<Rightarrow> ValueNode \<Rightarrow> Allocator \<Rightarrow> Allocator option" where
  "SetRegister r p s = do {
     index \<leftarrow> MapRegisterToIndex (kAllocatableGeneralRegisterCount s) r;
     info \<leftarrow> values_tbl s p;
     Some (set_info p (info\<lparr>reg := r\<rparr>)
             (s\<lparr>register_values := (register_values s)[index := Some p]\<rparr>))
   }"

definition DoAllocate :: "Register \<Rightarrow> ValueNode \<Rightarrow> Allocator \<Rightarrow> (AllocatedOperand \<times> Allocator) option" where
  "DoAllocate r p s = do {
     s1 \<leftarrow> SetRegister r p s;
     operand \<leftarrow> reg_operand r;
     Some (operand, s1)
   }"

text \<open>The first empty register at or after position \<open>i\<close> of the loop.\<close>

fun first_empty :: "ValueNode option list \<Rightarrow> nat \<Rightarrow> nat option" where
  "first_empty [] i = None"
| "first_empty (e # es) i = (if e = None then Some i else first_empty es (Suc i))"

text \<open>
  \<^verbatim>\<open>TryAllocateRegister\<close> returns an unallocated \<^verbatim>\<open>InstructionOperand\<close> when no register is
  empty: the inner \<open>None\<close>.
\<close>

definition TryAllocateRegister :: "ValueNode \<Rightarrow> Allocator \<Rightarrow> (AllocatedOperand option \<times> Allocator) option" where
  "TryAllocateRegister p s =
     (case first_empty (register_values s) 0 of
        None \<Rightarrow> Some (None, s)
      | Some index \<Rightarrow> do {
          r \<leftarrow> MapIndexToRegister (kAllocatableGeneralRegisterCount s) index;
          s1 \<leftarrow> SetRegister r p s;
          operand \<leftarrow> reg_operand r;
          Some (Some operand, s1)
        })"

text \<open>
  The search of \<^verbatim>\<open>Free\<close> with \<^verbatim>\<open>try_move\<close>: it stops at the first register that holds the
  node of the freed record, and otherwise ends with the last empty register it has seen.
\<close>

datatype move_search = Existing nat | Candidate "nat option"

fun move_search_loop ::
  "(ValueNode \<rightharpoonup> LiveNodeInfo) \<Rightarrow> ValueNode \<Rightarrow> nat \<Rightarrow> ValueNode option list \<Rightarrow> nat \<Rightarrow> nat option
     \<Rightarrow> move_search option" where
  "move_search_loop tbl nd skip [] i index = Some (Candidate index)"
| "move_search_loop tbl nd skip (e # es) i index =
     (if i = skip then move_search_loop tbl nd skip es (Suc i) index
      else case e of
        None \<Rightarrow> move_search_loop tbl nd skip es (Suc i) (Some i)
      | Some q \<Rightarrow>
          (case tbl q of
             None \<Rightarrow> None
           | Some qinfo \<Rightarrow>
               if node qinfo = nd then Some (Existing i)
               else move_search_loop tbl nd skip es (Suc i) index))"

text \<open>The search of \<^verbatim>\<open>Free\<close> without \<^verbatim>\<open>try_move\<close>: the first register holding the record.\<close>

fun first_holding :: "ValueNode \<Rightarrow> ValueNode option list \<Rightarrow> nat \<Rightarrow> nat option" where
  "first_holding p [] i = None"
| "first_holding p (e # es) i = (if e = Some p then Some i else first_holding p es (Suc i))"

definition Free :: "Register \<Rightarrow> bool \<Rightarrow> Allocator \<Rightarrow> Allocator option" where
  "Free r try_move s = do {
     index \<leftarrow> MapRegisterToIndex (kAllocatableGeneralRegisterCount s) r;
     (case register_values s ! index of
        None \<Rightarrow> Some s
      | Some p \<Rightarrow> do {
          info \<leftarrow> values_tbl s p;
          let s1 = s\<lparr>register_values := (register_values s)[index := None]\<rparr>;
          if r \<noteq> reg info then Some s1
          else do {
            let info1 = info\<lparr>reg := no_reg\<rparr>;
            let s2 = set_info p info1 s1;
            if stack_slot info1 \<noteq> None then Some s2
            else if try_move then do {
              found \<leftarrow> move_search_loop (values_tbl s2) (node info1) index (register_values s2) 0 None;
              (case found of
                 Existing i \<Rightarrow> do {
                   r' \<leftarrow> MapIndexToRegister (kAllocatableGeneralRegisterCount s2) i;
                   Some (set_info p (info1\<lparr>reg := r'\<rparr>) s2)
                 }
               | Candidate (Some i) \<Rightarrow> do {
                   target_reg \<leftarrow> MapIndexToRegister (kAllocatableGeneralRegisterCount s2) i;
                   s3 \<leftarrow> SetRegister target_reg p s2;
                   source \<leftarrow> reg_operand r;
                   target \<leftarrow> reg_operand target_reg;
                   Some (AddMoveBeforeCurrentNode source target
                           (trace (TraceFreeMove (node info1) target source) s3))
                 }
               | Candidate None \<Rightarrow> Spill p s2)
            }
            else
              (case first_holding p (register_values s2) 0 of
                 Some i \<Rightarrow> do {
                   r' \<leftarrow> MapIndexToRegister (kAllocatableGeneralRegisterCount s2) i;
                   Some (set_info p (info1\<lparr>reg := r'\<rparr>) s2)
                 }
               | None \<Rightarrow> Spill p s2)
          }
        })
   }"

definition ForceAllocate :: "Register \<Rightarrow> ValueNode \<Rightarrow> bool \<Rightarrow> Allocator \<Rightarrow> (AllocatedOperand \<times> Allocator) option" where
  "ForceAllocate r p try_move s = do {
     index \<leftarrow> MapRegisterToIndex (kAllocatableGeneralRegisterCount s) r;
     if register_values s ! index = Some p then do {
       operand \<leftarrow> reg_operand r;
       Some (operand, s)
     }
     else do {
       s1 \<leftarrow> Free r try_move s;
       DoAllocate r p s1
     }
   }"

text \<open>
  Modelled from the spec: the declaration of \<^verbatim>\<open>ForceAllocate\<close>, with the default value of
  \<^verbatim>\<open>try_move\<close> used by the calls that pass two arguments, is in maglev-regalloc.h, which is
  not part of the sources. A forced allocation evicts the occupant by moving it when it can.
\<close>

definition default_try_move :: bool where
  "default_try_move = True"

text \<open>The loop of \<^verbatim>\<open>AllocateRegister\<close> over the registers \<open>1, \<dots>, N - 1\<close>.\<close>

fun furthest_loop :: "Allocator \<Rightarrow> nat list \<Rightarrow> nat \<Rightarrow> nat option" where
  "furthest_loop s [] furthest = Some furthest"
| "furthest_loop s (i # rest) furthest = do {
     pf \<leftarrow> register_values s ! furthest;
     finfo \<leftarrow> values_tbl s pf;
     pi \<leftarrow> register_values s ! i;
     iinfo \<leftarrow> values_tbl s pi;
     furthest_loop s rest (if next_use finfo < next_use iinfo then i else furthest)
   }"

definition AllocateRegister :: "ValueNode \<Rightarrow> Allocator \<Rightarrow> (AllocatedOperand \<times> Allocator) option" where
  "AllocateRegister p s = do {
     (allocation, s1) \<leftarrow> TryAllocateRegister p s;
     (case allocation of
        Some operand \<Rightarrow> Some (operand, s1)
      | None \<Rightarrow> do {
          furthest \<leftarrow> furthest_loop s1 [1..<kAllocatableGeneralRegisterCount s1] 0;
          r \<leftarrow> MapIndexToRegister (kAllocatableGeneralRegisterCount s1) furthest;
          ForceAllocate r p False s1
        })
   }"

subsection \<open>Temporaries\<close>

text \<open>
  The first loop of \<^verbatim>\<open>GetFreeRegisters\<close>: it collects empty registers and returns as soon as
  the count reaches zero. The result holds the remaining count.
\<close>

fun collect_free ::
  "nat \<Rightarrow> ValueNode option list \<Rightarrow> nat \<Rightarrow> nat \<Rightarrow> Register set \<Rightarrow> (Register set \<times> nat) option" where
  "collect_free N [] i count free_registers = Some (free_registers, count)"
| "collect_free N (e # es) i count free_registers =
     (if e = None then do {
        r \<leftarrow> MapIndexToRegister N i;
        if count - 1 = 0 then Some (insert r free_registers, 0)
        else collect_free N es (Suc i) (count - 1) (insert r free_registers)
      }
      else collect_free N es (Suc i) count free_registers)"

text \<open>
  \<^verbatim>\<open>int use = register_values_[i]->next_use\<close> converts the 32-bit unsigned id of the next
  use to \<^verbatim>\<open>int\<close>: an id from \<open>2\<^sup>3\<^sup>1\<close> on is read as a negative number.
\<close>

definition uint32_to_int :: "nat \<Rightarrow> int" where
  "uint32_to_int n =
     (if int n mod 4294967296 < 2147483648 then int n mod 4294967296
      else int n mod 4294967296 - 4294967296)"

text \<open>
  The inner loop of the eviction: \<open>furthest_use\<close> and \<open>longest\<close> (\<open>None\<close> for \<open>-1\<close>) are
  declared before the \<^verbatim>\<open>while\<close> loop and keep their values from one round to the next.
\<close>

fun scan_furthest :: "Allocator \<Rightarrow> nat list \<Rightarrow> int \<times> nat option \<Rightarrow> (int \<times> nat option) option" where
  "scan_furthest s [] acc = Some acc"
| "scan_furthest s (i # rest) (furthest_use, longest) =
     (case register_values s ! i of
        None \<Rightarrow> scan_furthest s rest (furthest_use, longest)
      | Some p \<Rightarrow>
          (case values_tbl s p of
             None \<Rightarrow> None
           | Some info \<Rightarrow>
               if uint32_to_int (next_use info) > furthest_use
               then scan_furthest s rest (uint32_to_int (next_use info), Some i)
               else scan_furthest s rest (furthest_use, longest)))"

fun evict_loop ::
  "nat \<Rightarrow> int \<times> nat option \<Rightarrow> Register set \<Rightarrow> Allocator \<Rightarrow> (Register set \<times> Allocator) option" where
  "evict_loop 0 acc free_registers s = Some (free_registers, s)"
| "evict_loop (Suc count) acc free_registers s = do {
     (furthest_use, longest) \<leftarrow> scan_furthest s [0..<kAllocatableGeneralRegisterCount s] acc;
     l \<leftarrow> longest;
     r \<leftarrow> MapIndexToRegister (kAllocatableGeneralRegisterCount s) l;
     s1 \<leftarrow> Free r False s;
     evict_loop count (furthest_use, longest) (insert r free_registers) s1
   }"

definition GetFreeRegisters :: "nat \<Rightarrow> Allocator \<Rightarrow> (Register set \<times> Allocator) option" where
  "GetFreeRegisters count s =
     (if count = 0 then Some ({}, s)
      else do {
        (free_registers, count1) \<leftarrow>
          collect_free (kAllocatableGeneralRegisterCount s) (register_values s) 0 count {};
        if count1 = 0 then Some (free_registers, s)
        else evict_loop count1 (0, None) free_registers s
      })"

definition AssignTemporaries :: "'a Node_scheme \<Rightarrow> Allocator \<Rightarrow> Allocator option" where
  "AssignTemporaries n s = do {
     (free_registers, s1) \<leftarrow> GetFreeRegisters (num_temporaries_needed n) s;
     Some (s1\<lparr>temporaries := (temporaries s1)(nd_id n \<mapsto> free_registers)\<rparr>)
   }"

subsection \<open>Inputs and results\<close>

text \<open>
  \<^verbatim>\<open>values_[input.node()]\<close> creates an empty record for a value that has none, and
  \<^verbatim>\<open>allocation()\<close> then dereferences its null stack slot. The policy of an input is an
  extended policy.
\<close>

definition AssignInput :: "nat \<times> nat \<Rightarrow> Input \<Rightarrow> Allocator \<Rightarrow> Allocator option" where
  "AssignInput key input s =
     (case input_operand input of
        FIXED_SLOT i \<Rightarrow> None
      | EXTENDED_POLICY policy idx \<Rightarrow> do {
          info \<leftarrow> values_tbl s (input_node input);
          location \<leftarrow> allocation info;
          (allocated, s1) \<leftarrow>
            (case policy of
               REGISTER_OR_SLOT \<Rightarrow> Some (location, s)
             | REGISTER_OR_SLOT_OR_CONSTANT \<Rightarrow> Some (location, s)
             | FIXED_REGISTER \<Rightarrow> ForceAllocate (Reg idx) (input_node input) default_try_move s
             | MUST_HAVE_REGISTER \<Rightarrow>
                 if IsRegister location then Some (location, s)
                 else AllocateRegister (input_node input) s
             | FIXED_FP_REGISTER \<Rightarrow> None
             | SAME_AS_INPUT \<Rightarrow> None
             | NONE \<Rightarrow> None
             | MUST_HAVE_SLOT \<Rightarrow> None);
          let s2 = s1\<lparr>input_allocated := (input_allocated s1)(key \<mapsto> allocated)\<rparr>;
          Some (if location \<noteq> allocated
                then AddMoveBeforeCurrentNode location allocated
                       (trace (TraceGapMove allocated location) s2)
                else s2)
        })"

text \<open>The loop \<^verbatim>\<open>for (Input& input : *node) AssignInput(input)\<close>, from input position \<open>k\<close>.\<close>

fun AssignInputs :: "nat \<Rightarrow> nat \<Rightarrow> Input list \<Rightarrow> Allocator \<Rightarrow> Allocator option" where
  "AssignInputs owner k [] s = Some s"
| "AssignInputs owner k (input # rest) s =
     (case AssignInput (owner, k) input s of
        None \<Rightarrow> None
      | Some s1 \<Rightarrow> AssignInputs owner (Suc k) rest s1)"

text \<open>
  Modelled from the spec: \<^verbatim>\<open>MakeLive\<close> is defined in maglev-regalloc.h, which is not part of
  the sources. It creates the liveness record of a value: the value it describes, its last
  use (the end of the live range), its next use, no register and no stack slot.
\<close>

definition MakeLive :: "ValueNode \<Rightarrow> Allocator \<Rightarrow> Allocator" where
  "MakeLive v s =
     set_info v \<lparr>node = v, last_use = live_range_end v, next_use = first_use v,
                 stack_slot = None, reg = no_reg\<rparr> s"

text \<open>
  \<^verbatim>\<open>Input::AssignedRegister\<close> and \<^verbatim>\<open>SetNoSpillOrHint\<close> belong to maglev-ir.h, which is not part
  of the sources: the register of an operand that is a register, and the reset of the spill
  slot recorded on the node.
\<close>

fun AssignedRegister :: "AllocatedOperand \<Rightarrow> Register option" where
  "AssignedRegister (REGISTER c) = Some (Reg c)"
| "AssignedRegister (STACK_SLOT i) = None"

definition SetNoSpillOrHint :: "ValueNode \<Rightarrow> Allocator \<Rightarrow> Allocator" where
  "SetNoSpillOrHint v s = s\<lparr>node_spill := (node_spill s)(v := None)\<rparr>"

definition SetAllocated_result :: "ValueNode \<Rightarrow> AllocatedOperand \<Rightarrow> Allocator \<Rightarrow> Allocator" where
  "SetAllocated_result v operand s = s\<lparr>result_allocated := (result_allocated s)(v \<mapsto> operand)\<rparr>"

definition AllocateNodeResult :: "Node \<Rightarrow> Allocator \<Rightarrow> Allocator option" where
  "AllocateNodeResult n s = do {
     v \<leftarrow> Cast_ValueNode n;
     operand \<leftarrow> result_policy n;
     let s1 = SetNoSpillOrHint v (MakeLive v s);
     (case operand of
        FIXED_SLOT i \<Rightarrow> do {
          info \<leftarrow> values_tbl s1 v;
          Some (SetAllocated_result v (STACK_SLOT i) (set_info v (info\<lparr>stack_slot := Some i\<rparr>) s1))
        }
      | EXTENDED_POLICY policy idx \<Rightarrow>
          (case policy of
             FIXED_REGISTER \<Rightarrow> do {
               (allocated, s2) \<leftarrow> ForceAllocate (Reg idx) v default_try_move s1;
               Some (SetAllocated_result v allocated s2)
             }
           | MUST_HAVE_REGISTER \<Rightarrow> do {
               (allocated, s2) \<leftarrow> AllocateRegister v s1;
               Some (SetAllocated_result v allocated s2)
             }
           | SAME_AS_INPUT \<Rightarrow> do {
               input_op \<leftarrow> (if idx < length (nd_inputs n) then input_allocated s1 (nd_id n, idx) else None);
               r \<leftarrow> AssignedRegister input_op;
               (allocated, s2) \<leftarrow> ForceAllocate r v default_try_move s1;
               Some (SetAllocated_result v allocated s2)
             }
           | REGISTER_OR_SLOT_OR_CONSTANT \<Rightarrow> None
           | NONE \<Rightarrow> None
           | FIXED_FP_REGISTER \<Rightarrow> None
           | MUST_HAVE_SLOT \<Rightarrow> None
           | REGISTER_OR_SLOT \<Rightarrow> None))
   }"

subsection \<open>Processing a node\<close>

text \<open>What \<^verbatim>\<open>PrintLiveRegs\<close> prints: the occupied registers with the id of their value.\<close>

definition PrintLiveRegs :: "Allocator \<Rightarrow> trace_event" where
  "PrintLiveRegs s =
     TraceLiveRegs
       (concat (map (\<lambda>i. case register_values s ! i of
                            None \<Rightarrow> []
                          | Some p \<Rightarrow> [(i, map_option (\<lambda>info. node_id (node info)) (values_tbl s p))])
                    [0..<kAllocatableGeneralRegisterCount s]))"

definition AllocateNode :: "Node \<Rightarrow> Allocator \<Rightarrow> Allocator option" where
  "AllocateNode n s = do {
     s1 \<leftarrow> AssignInputs (nd_id n) 0 (nd_inputs n) s;
     s2 \<leftarrow> AssignTemporaries n s1;
     s3 \<leftarrow> UpdateInputs (nd_id n) (nd_inputs n) s2;
     s4 \<leftarrow> (if is_call n then SpillAndClearRegisters s3 else Some s3);
     s5 \<leftarrow> (if can_deopt n then SpillRegisters s4 else Some s4);
     s6 \<leftarrow> (if Is_ValueNode n then AllocateNodeResult n s5 else Some s5);
     Some (if trace_regalloc s6
           then trace (PrintLiveRegs s6) (trace (TraceProcess (nd_id n)) s6)
           else s6)
   }"

subsection \<open>Liveness at a branch target\<close>

text \<open>The source of an edge is a control node; only its id is read.\<close>

definition IsLiveAtTarget :: "Allocator \<Rightarrow> ValueNode option \<Rightarrow> nat \<Rightarrow> BasicBlock \<Rightarrow> bool option" where
  "IsLiveAtTarget s info_ptr source_id target =
     (case info_ptr of
        None \<Rightarrow> Some False
      | Some p \<Rightarrow>
          (case values_tbl s p of
             None \<Rightarrow> None
           | Some info \<Rightarrow>
               if nd_id (control_node target) \<le> source_id
               then Some (node_id (node info) < FirstNonGapMoveId target)
               else Some (last_use info \<ge> first_id target)))"

subsection \<open>Merging register values into a branch target\<close>

text \<open>
  A block is passed as its position in the graph together with the block itself; the position
  is the key of its register state. \<^verbatim>\<open>has_state()\<close> is whether the block has one;
  \<^verbatim>\<open>state()->register_state()\<close> of a block without a merge state dereferences null.
\<close>

definition block_at :: "Graph \<Rightarrow> nat \<Rightarrow> BasicBlock option" where
  "block_at g b = (if b < length g then Some (g ! b) else None)"

definition has_state :: "Allocator \<Rightarrow> nat \<Rightarrow> bool" where
  "has_state s b = (register_state s b \<noteq> None)"

fun InitializeBranchTarget_loop ::
  "Allocator \<Rightarrow> nat \<Rightarrow> BasicBlock \<Rightarrow> nat list \<Rightarrow> RegisterState list \<Rightarrow> RegisterState list option" where
  "InitializeBranchTarget_loop s source_id target [] target_state = Some target_state"
| "InitializeBranchTarget_loop s source_id target (i # rest) target_state =
     (case IsLiveAtTarget s (register_values s ! i) source_id target of
        None \<Rightarrow> None
      | Some live \<Rightarrow>
          InitializeBranchTarget_loop s source_id target rest
            (target_state[i := NodeState (if live then register_values s ! i else None)]))"

definition InitializeBranchTargetRegisterValues ::
  "nat \<Rightarrow> nat \<times> BasicBlock \<Rightarrow> Allocator \<Rightarrow> Allocator option" where
  "InitializeBranchTargetRegisterValues source_id tgt s =
     (case register_state s (fst tgt) of
        None \<Rightarrow> None
      | Some target_state \<Rightarrow> do {
          target_state' \<leftarrow>
            InitializeBranchTarget_loop s source_id (snd tgt)
              [0..<kAllocatableGeneralRegisterCount s] target_state;
          Some (s\<lparr>register_state := (register_state s)(fst tgt \<mapsto> target_state')\<rparr>)
        })"

text \<open>
  \<^verbatim>\<open>merge->operand(j) = operand\<close>. The array of a \<^verbatim>\<open>RegisterMerge\<close> has one operand for each
  predecessor; a write outside of it is \<open>None\<close>.
\<close>

definition set_operand :: "nat \<Rightarrow> AllocatedOperand \<Rightarrow> RegisterMerge \<Rightarrow> RegisterMerge option" where
  "set_operand j operand m =
     (if j < length (operands m) then Some (m\<lparr>operands := (operands m)[j := operand]\<rparr>)
      else None)"

text \<open>
  One round of the loop of \<^verbatim>\<open>MergeRegisterValues\<close>, for register index \<open>i\<close>: the new value
  of \<^verbatim>\<open>target_state[i]\<close>. \<^verbatim>\<open>EnsureInRegister\<close> has a body in debug builds only; what remains
  of its two calls is the evaluation of their guards, which read the record of the incoming
  value.
\<close>

definition merge_entry ::
  "Allocator \<Rightarrow> nat \<Rightarrow> BasicBlock \<Rightarrow> nat \<Rightarrow> nat \<Rightarrow> RegisterState \<Rightarrow> RegisterState option" where
  "merge_entry s control_id target pred_id i entry =
     (case LoadMergeState entry of (stored, merge) \<Rightarrow> do {
        live \<leftarrow> IsLiveAtTarget s (register_values s ! i) control_id target;
        let incoming = (if live then register_values s ! i else None);
        let register_info = REGISTER i;
        if incoming = stored then
          (case merge of
             None \<Rightarrow> Some entry
           | Some m \<Rightarrow> map_option MergeState (set_operand pred_id register_info m))
        else
          (case merge of
             Some m \<Rightarrow> do {
               ninfo \<leftarrow> values_tbl s (merge_node m);
               location \<leftarrow> allocation ninfo;
               m' \<leftarrow> set_operand pred_id location m;
               (case incoming of
                  None \<Rightarrow> Some (MergeState m')
                | Some x \<Rightarrow> map_option (\<lambda>xinfo. MergeState m') (values_tbl s x))
             }
           | None \<Rightarrow>
               (case stored of
                  None \<Rightarrow> do {
                    x \<leftarrow> incoming;
                    xinfo \<leftarrow> values_tbl s x;
                    (case stack_slot xinfo of
                       None \<Rightarrow> Some entry
                     | Some slot \<Rightarrow>
                         map_option MergeState
                           (set_operand pred_id register_info
                              \<lparr>merge_node = x,
                               operands = replicate (predecessor_count target) (STACK_SLOT slot)\<rparr>))
                  }
                | Some nd \<Rightarrow> do {
                    ninfo \<leftarrow> values_tbl s nd;
                    location \<leftarrow> allocation ninfo;
                    map_option MergeState
                      (set_operand pred_id location
                         \<lparr>merge_node = nd,
                          operands = replicate (predecessor_count target) register_info\<rparr>)
                  }))
      })"

fun MergeRegisterValues_loop ::
  "Allocator \<Rightarrow> nat \<Rightarrow> BasicBlock \<Rightarrow> nat \<Rightarrow> nat list \<Rightarrow> RegisterState list \<Rightarrow> RegisterState list option" where
  "MergeRegisterValues_loop s control_id target pred_id [] target_state = Some target_state"
| "MergeRegisterValues_loop s control_id target pred_id (i # rest) target_state =
     (case merge_entry s control_id target pred_id i (target_state ! i) of
        None \<Rightarrow> None
      | Some entry \<Rightarrow>
          MergeRegisterValues_loop s control_id target pred_id rest
            (target_state[i := entry]))"

definition MergeRegisterValues ::
  "nat \<Rightarrow> nat \<times> BasicBlock \<Rightarrow> nat \<Rightarrow> Allocator \<Rightarrow> Allocator option" where
  "MergeRegisterValues control_id tgt pred_id s =
     (case register_state s (fst tgt) of
        None \<Rightarrow> None
      | Some target_state \<Rightarrow>
          (case target_state of
             [] \<Rightarrow> None
           | entry0 # _ \<Rightarrow>
               if \<not> is_initialized entry0
               then InitializeBranchTargetRegisterValues control_id tgt s
               else do {
                 target_state' \<leftarrow>
                   MergeRegisterValues_loop s control_id (snd tgt) pred_id
                     [0..<kAllocatableGeneralRegisterCount s] target_state;
                 Some (s\<lparr>register_state := (register_state s)(fst tgt \<mapsto> target_state')\<rparr>)
               }))"

subsection \<open>Restoring the register state of a merge point\<close>

fun clear_registers_loop :: "nat list \<Rightarrow> Allocator \<Rightarrow> Allocator option" where
  "clear_registers_loop [] s = Some s"
| "clear_registers_loop (i # rest) s =
     (case register_values s ! i of
        None \<Rightarrow> clear_registers_loop rest s
      | Some p \<Rightarrow>
          (case values_tbl s p of
             None \<Rightarrow> None
           | Some info \<Rightarrow>
               clear_registers_loop rest
                 ((set_info p (info\<lparr>reg := no_reg\<rparr>) s)
                    \<lparr>register_values := (register_values s)[i := None]\<rparr>)))"

fun fill_registers_loop :: "RegisterState list \<Rightarrow> nat list \<Rightarrow> Allocator \<Rightarrow> Allocator option" where
  "fill_registers_loop target_state [] s = Some s"
| "fill_registers_loop target_state (i # rest) s =
     (case fst (LoadMergeState (target_state ! i)) of
        None \<Rightarrow> fill_registers_loop target_state rest s
      | Some p \<Rightarrow>
          (case values_tbl s p of
             None \<Rightarrow> None
           | Some info \<Rightarrow>
               (case MapIndexToRegister (kAllocatableGeneralRegisterCount s) i of
                  None \<Rightarrow> None
                | Some r \<Rightarrow>
                    fill_registers_loop target_state rest
                      ((set_info p (info\<lparr>reg := r\<rparr>) s)
                         \<lparr>register_values := (register_values s)[i := Some p]\<rparr>))))"

definition InitializeRegisterValues :: "RegisterState list \<Rightarrow> Allocator \<Rightarrow> Allocator option" where
  "InitializeRegisterValues target_state s = do {
     s1 \<leftarrow> clear_registers_loop [0..<kAllocatableGeneralRegisterCount s] s;
     fill_registers_loop target_state [0..<kAllocatableGeneralRegisterCount s1] s1
   }"

subsection \<open>Branches\<close>

fun clear_dead_loop :: "nat \<Rightarrow> BasicBlock \<Rightarrow> nat list \<Rightarrow> Allocator \<Rightarrow> Allocator option" where
  "clear_dead_loop source_id target [] s = Some s"
| "clear_dead_loop source_id target (i # rest) s =
     (case register_values s ! i of
        None \<Rightarrow> clear_dead_loop source_id target rest s
      | Some p \<Rightarrow>
          (case IsLiveAtTarget s (Some p) source_id target of
             None \<Rightarrow> None
           | Some True \<Rightarrow> clear_dead_loop source_id target rest s
           | Some False \<Rightarrow>
               (case values_tbl s p of
                  None \<Rightarrow> None
                | Some info \<Rightarrow>
                    clear_dead_loop source_id target rest
                      ((set_info p (info\<lparr>reg := no_reg\<rparr>) s)
                         \<lparr>register_values := (register_values s)[i := None]\<rparr>))))"

definition InitializeConditionalBranchRegisters :: "Graph \<Rightarrow> nat \<Rightarrow> nat \<Rightarrow> Allocator \<Rightarrow> Allocator option" where
  "InitializeConditionalBranchRegisters g node_ident t s = do {
     target \<leftarrow> block_at g t;
     if is_empty_block target then
       (case kind (control_node target) of
          Jump t2 \<Rightarrow> do {
            target2 \<leftarrow> block_at g t2;
            MergeRegisterValues node_ident (t2, target2) (predecessor_id target) s
          }
        | JumpLoop t2 \<Rightarrow> None
        | ConditionalControlNode t2 f2 \<Rightarrow> None
        | Return \<Rightarrow> None)
     else if has_state s t then InitializeBranchTargetRegisterValues node_ident (t, target) s
     else clear_dead_loop node_ident target [0..<kAllocatableGeneralRegisterCount s] s
   }"

subsection \<open>Control nodes\<close>

text \<open>
  The operand of input \<open>k\<close> of a phi is kept, like the operand of any input, under the id of
  the phi and \<open>k\<close>. \<^verbatim>\<open>phi->input(j)\<close> outside of the inputs of the phi is \<open>None\<close>.
\<close>

fun inject_phis :: "nat \<Rightarrow> Phi list \<Rightarrow> Allocator \<Rightarrow> Allocator option" where
  "inject_phis pred_id [] s = Some s"
| "inject_phis pred_id (phi # rest) s = do {
     input \<leftarrow> (if pred_id < length (phi_inputs phi) then Some (phi_inputs phi ! pred_id) else None);
     info \<leftarrow> values_tbl s (input_node input);
     location \<leftarrow> allocation info;
     inject_phis pred_id rest
       (s\<lparr>input_allocated := (input_allocated s)((node_id (phi_node phi), pred_id) \<mapsto> location)\<rparr>)
   }"

fun update_phi_uses :: "nat \<Rightarrow> nat \<Rightarrow> Phi list \<Rightarrow> Allocator \<Rightarrow> Allocator option" where
  "update_phi_uses use pred_id [] s = Some s"
| "update_phi_uses use pred_id (phi # rest) s = do {
     input \<leftarrow> (if pred_id < length (phi_inputs phi) then Some (phi_inputs phi ! pred_id) else None);
     s1 \<leftarrow> UpdateInputUseAndClearDead use input s;
     update_phi_uses use pred_id rest s1
   }"

fun unconditional_target :: "ControlKind \<Rightarrow> nat option" where
  "unconditional_target (Jump t) = Some t"
| "unconditional_target (JumpLoop t) = Some t"
| "unconditional_target (ConditionalControlNode t f) = None"
| "unconditional_target Return = None"

definition AllocateControlNode :: "Graph \<Rightarrow> ControlNode \<Rightarrow> BasicBlock \<Rightarrow> Allocator \<Rightarrow> Allocator option" where
  "AllocateControlNode g n block s = do {
     s1 \<leftarrow> AssignInputs (nd_id n) 0 (nd_inputs n) s;
     s2 \<leftarrow> AssignTemporaries n s1;
     s3 \<leftarrow> UpdateInputs (nd_id n) (nd_inputs n) s2;
     s4 \<leftarrow> (if is_call n then SpillAndClearRegisters s3 else Some s3);
     s5 \<leftarrow> (case unconditional_target (kind n) of
              None \<Rightarrow> Some s4
            | Some t \<Rightarrow> do {
                target \<leftarrow> block_at g t;
                if phis target \<noteq> [] then do {
                  s4' \<leftarrow> inject_phis (predecessor_id block) (phis target) s4;
                  update_phi_uses (nd_id n) (predecessor_id block) (phis target) s4'
                }
                else Some s4
              });
     s6 \<leftarrow> (if can_deopt n then SpillRegisters s5 else Some s5);
     s7 \<leftarrow> (case kind n of
              Jump t \<Rightarrow>
                if \<not> is_empty_block block then do {
                  target \<leftarrow> block_at g t;
                  MergeRegisterValues (nd_id n) (t, target) (predecessor_id block) s6
                }
                else Some s6
            | JumpLoop t \<Rightarrow>
                if \<not> is_empty_block block then do {
                  target \<leftarrow> block_at g t;
                  MergeRegisterValues (nd_id n) (t, target) (predecessor_id block) s6
                }
                else Some s6
            | ConditionalControlNode if_true if_false \<Rightarrow> do {
                s6' \<leftarrow> InitializeConditionalBranchRegisters g (nd_id n) if_true s6;
                InitializeConditionalBranchRegisters g (nd_id n) if_false s6'
              }
            | Return \<Rightarrow> Some s6);
     Some (trace (TraceProcess (nd_id n)) s7)
   }"

subsection \<open>Phis\<close>

fun TryAllocateToInput_loop :: "ValueNode \<Rightarrow> nat \<Rightarrow> nat \<Rightarrow> Input list \<Rightarrow> Allocator \<Rightarrow> Allocator option" where
  "TryAllocateToInput_loop phi owner k [] s = Some s"
| "TryAllocateToInput_loop phi owner k (input # rest) s =
     (case input_allocated s (owner, k) of
        Some (REGISTER c) \<Rightarrow>
          (case MapRegisterToIndex (kAllocatableGeneralRegisterCount s) (Reg c) of
             None \<Rightarrow> None
           | Some index \<Rightarrow>
               if register_values s ! index = None then do {
                 (allocated, s1) \<leftarrow> DoAllocate (Reg c) phi s;
                 Some (trace (TracePhi ''reuse'' (node_id phi) (Some (REGISTER c)))
                         (SetAllocated_result phi allocated s1))
               }
               else TryAllocateToInput_loop phi owner (Suc k) rest s)
      | Some (STACK_SLOT i) \<Rightarrow> TryAllocateToInput_loop phi owner (Suc k) rest s
      | None \<Rightarrow> TryAllocateToInput_loop phi owner (Suc k) rest s)"

definition TryAllocateToInput :: "Phi \<Rightarrow> Allocator \<Rightarrow> Allocator option" where
  "TryAllocateToInput phi s =
     TryAllocateToInput_loop (phi_node phi) (node_id (phi_node phi)) 0 (phi_inputs phi) s"

fun phis_to_inputs :: "Phi list \<Rightarrow> Allocator \<Rightarrow> Allocator option" where
  "phis_to_inputs [] s = Some s"
| "phis_to_inputs (phi # rest) s = do {
     s1 \<leftarrow> TryAllocateToInput phi (MakeLive (phi_node phi) (SetNoSpillOrHint (phi_node phi) s));
     phis_to_inputs rest s1
   }"

fun phis_to_registers :: "Phi list \<Rightarrow> Allocator \<Rightarrow> Allocator option" where
  "phis_to_registers [] s = Some s"
| "phis_to_registers (phi # rest) s =
     (if result_allocated s (phi_node phi) \<noteq> None then phis_to_registers rest s
      else do {
        (allocation, s1) \<leftarrow> TryAllocateRegister (phi_node phi) s;
        (case allocation of
           None \<Rightarrow> phis_to_registers rest s1
         | Some operand \<Rightarrow>
             phis_to_registers rest
               (trace (TracePhi ''new reg'' (node_id (phi_node phi)) (Some operand))
                  (SetAllocated_result (phi_node phi) operand s1)))
      })"

fun phis_to_stack :: "Phi list \<Rightarrow> Allocator \<Rightarrow> Allocator option" where
  "phis_to_stack [] s = Some s"
| "phis_to_stack (phi # rest) s =
     (if result_allocated s (phi_node phi) \<noteq> None then phis_to_stack rest s
      else do {
        s1 \<leftarrow> AllocateSpillSlot (phi_node phi) s;
        info \<leftarrow> values_tbl s1 (phi_node phi);
        slot \<leftarrow> stack_slot info;
        phis_to_stack rest
          (trace (TracePhi ''stack'' (node_id (phi_node phi)) (Some (STACK_SLOT slot)))
             (SetAllocated_result (phi_node phi) (STACK_SLOT slot) s1))
      })"

definition activate_phis :: "Phi list \<Rightarrow> Allocator \<Rightarrow> Allocator option" where
  "activate_phis ps s = do {
     s1 \<leftarrow> phis_to_inputs ps s;
     s2 \<leftarrow> phis_to_registers ps s1;
     s3 \<leftarrow> phis_to_stack ps s2;
     Some (trace (PrintLiveRegs s3) s3)
   }"

subsection \<open>The trace of a block\<close>

text \<open>
  With the trace flag set, \<^verbatim>\<open>AllocateRegisters\<close> prints the chain of post-dominating holes
  of every block. The chain is read from the \<^verbatim>\<open>next_post_dominating_hole\<close> fields, which
  \<^verbatim>\<open>ComputePostDominatingHoles\<close> has filled in before. The
  loop dereferences the next hole of every jump of the chain and reaches
  \<^verbatim>\<open>UNREACHABLE()\<close> at a conditional control node; nothing bounds the length of the chain,
  so the loop is a partial function and \<open>None\<close> is also the loop that does not end.
\<close>

definition NearestPostDominatingHole :: "Graph \<Rightarrow> nat \<Rightarrow> nat option option" where
  "NearestPostDominatingHole g c = do {
     b \<leftarrow> block_at g c;
     (case kind (control_node b) of
        ConditionalControlNode if_true if_false \<Rightarrow> Some (next_post_dominating_hole (control_node b))
      | Jump t \<Rightarrow> do {
          target \<leftarrow> block_at g t;
          if nd_id (control_node b) + 1 = first_id target
          then Some (next_post_dominating_hole (control_node b))
          else Some (Some c)
        }
      | JumpLoop t \<Rightarrow> Some (Some c)
      | Return \<Rightarrow> Some (Some c))
   }"

partial_function (option) holes_loop :: "Graph \<Rightarrow> nat \<Rightarrow> hole_event list option" where
  "holes_loop g c =
     (case block_at g c of
        None \<Rightarrow> None
      | Some b \<Rightarrow>
          (case kind (control_node b) of
             Jump t \<Rightarrow>
               (case block_at g t of
                  None \<Rightarrow> None
                | Some target \<Rightarrow>
                    (case next_post_dominating_hole (control_node b) of
                       None \<Rightarrow> None
                     | Some c' \<Rightarrow>
                         Option.bind (holes_loop g c')
                           (\<lambda>rest. Some (HoleJump (nd_id (control_node b)) (first_id target) # rest))))
           | Return \<Rightarrow> Some [HoleReturn (nd_id (control_node b))]
           | JumpLoop t \<Rightarrow> Some [HoleLoop (nd_id (control_node b))]
           | ConditionalControlNode if_true if_false \<Rightarrow> None))"

declare holes_loop.simps [code]

definition print_holes :: "Graph \<Rightarrow> nat \<Rightarrow> hole_event list option" where
  "print_holes g bi = do {
     hole \<leftarrow> NearestPostDominatingHole g bi;
     c \<leftarrow> hole;
     b \<leftarrow> block_at g c;
     (case kind (control_node b) of
        JumpLoop t \<Rightarrow> Some []
      | Jump t \<Rightarrow> holes_loop g c
      | ConditionalControlNode if_true if_false \<Rightarrow> holes_loop g c
      | Return \<Rightarrow> holes_loop g c)
   }"

definition trace_block :: "Graph \<Rightarrow> nat \<Rightarrow> Allocator \<Rightarrow> Allocator option" where
  "trace_block g bi s =
     (if trace_regalloc s then do {
        holes \<leftarrow> print_holes g bi;
        Some (trace (TraceHoles holes) (trace (PrintLiveRegs s) (trace (TraceBlock bi) s)))
      }
      else Some s)"

subsection \<open>The allocator\<close>

text \<open>
  The cursors \<^verbatim>\<open>block_it_\<close> and \<^verbatim>\<open>node_it_\<close> are the position of the block and the id of
  the node being processed; at the control node \<^verbatim>\<open>*node_it_\<close> is null.
\<close>

fun AllocateNodes :: "Node list \<Rightarrow> Allocator \<Rightarrow> Allocator option" where
  "AllocateNodes [] s = Some s"
| "AllocateNodes (n # rest) s =
     (case AllocateNode n (s\<lparr>node_it := Some (nd_id n)\<rparr>) of
        None \<Rightarrow> None
      | Some s1 \<Rightarrow> AllocateNodes rest s1)"

definition AllocateBlock :: "Graph \<Rightarrow> nat \<Rightarrow> Allocator \<Rightarrow> Allocator option" where
  "AllocateBlock g bi s0 = do {
     block \<leftarrow> block_at g bi;
     let s = s0\<lparr>block_it := bi\<rparr>;
     s1 \<leftarrow> (case register_state s bi of
              None \<Rightarrow> Some s
            | Some target_state \<Rightarrow> InitializeRegisterValues target_state s);
     s2 \<leftarrow> trace_block g bi s1;
     s3 \<leftarrow> (if phis block \<noteq> [] then activate_phis (phis block) s2 else Some s2);
     s4 \<leftarrow> AllocateNodes (nodes block) s3;
     AllocateControlNode g (control_node block) block (s4\<lparr>node_it := None\<rparr>)
   }"

fun AllocateBlocks :: "Graph \<Rightarrow> nat list \<Rightarrow> Allocator \<Rightarrow> Allocator option" where
  "AllocateBlocks g [] s = Some s"
| "AllocateBlocks g (bi # rest) s =
     (case AllocateBlock g bi s of
        None \<Rightarrow> None
      | Some s1 \<Rightarrow> AllocateBlocks g rest s1)"

definition AllocateRegisters :: "Graph \<Rightarrow> Allocator \<Rightarrow> Allocator option" where
  "AllocateRegisters g s = AllocateBlocks g [0..<length g] (trace TraceGraph s)"

subsection \<open>Post-dominating holes and the constructor\<close>

text \<open>
  \<^verbatim>\<open>ComputePostDominatingHoles\<close> walks the blocks in reverse order and sets the next
  post-dominating hole of every jump and every conditional control node. A pointer to a
  control node is the position of its block, and \<open>None\<close> is the null pointer.
\<close>

definition set_next_post_dominating_hole :: "nat \<Rightarrow> nat option \<Rightarrow> Graph \<Rightarrow> Graph" where
  "set_next_post_dominating_hole c hole g =
     g[c := (g ! c)\<lparr>control_node := (control_node (g ! c))\<lparr>next_post_dominating_hole := hole\<rparr>\<rparr>]"

text \<open>
  The \<^verbatim>\<open>while (first != second)\<close> loop for a conditional control node, with the value of
  \<open>first\<close> when the loop is left, which is what the assignment after the loop stores (when
  the loop is left by \<^verbatim>\<open>break\<close>, it overwrites the value stored just before). Comparing the
  ids dereferences both pointers. Nothing in the loop bounds the number of rounds, so it is a
  partial function.
\<close>

partial_function (option) merge_holes :: "Graph \<Rightarrow> nat option \<Rightarrow> nat option \<Rightarrow> nat option option" where
  "merge_holes g first second =
     (if first = second then Some first
      else
        (case first of
           None \<Rightarrow> None
         | Some f \<Rightarrow>
        (case second of
           None \<Rightarrow> None
         | Some sd \<Rightarrow>
        (case block_at g f of
           None \<Rightarrow> None
         | Some fb \<Rightarrow>
        (case block_at g sd of
           None \<Rightarrow> None
         | Some sb \<Rightarrow>
             if nd_id (control_node fb) > nd_id (control_node sb)
             then (case kind (control_node sb) of
                     Return \<Rightarrow> Some (Some sd)
                   | JumpLoop t \<Rightarrow> Some (Some sd)
                   | Jump t \<Rightarrow>
                       merge_holes g (next_post_dominating_hole (control_node sb)) (Some f)
                   | ConditionalControlNode if_true if_false \<Rightarrow>
                       merge_holes g (next_post_dominating_hole (control_node sb)) (Some f))
             else (case kind (control_node fb) of
                     Return \<Rightarrow> Some (Some f)
                   | JumpLoop t \<Rightarrow> Some (Some f)
                   | Jump t \<Rightarrow>
                       merge_holes g (next_post_dominating_hole (control_node fb)) (Some sd)
                   | ConditionalControlNode if_true if_false \<Rightarrow>
                       merge_holes g (next_post_dominating_hole (control_node fb)) (Some sd)))))))"

declare merge_holes.simps [code]

fun ComputePostDominatingHoles_loop :: "nat list \<Rightarrow> Graph \<Rightarrow> Graph option" where
  "ComputePostDominatingHoles_loop [] g = Some g"
| "ComputePostDominatingHoles_loop (b # rest) g =
     (case block_at g b of
        None \<Rightarrow> None
      | Some block \<Rightarrow>
          (case kind (control_node block) of
             Jump t \<Rightarrow>
               (case NearestPostDominatingHole g t of
                  None \<Rightarrow> None
                | Some hole \<Rightarrow>
                    ComputePostDominatingHoles_loop rest (set_next_post_dominating_hole b hole g))
           | ConditionalControlNode if_true if_false \<Rightarrow>
               (case NearestPostDominatingHole g if_true of
                  None \<Rightarrow> None
                | Some first \<Rightarrow>
                    (case NearestPostDominatingHole g if_false of
                       None \<Rightarrow> None
                     | Some second \<Rightarrow>
                         (case merge_holes g first second of
                            None \<Rightarrow> None
                          | Some hole \<Rightarrow>
                              ComputePostDominatingHoles_loop rest
                                (set_next_post_dominating_hole b hole g))))
           | JumpLoop t \<Rightarrow> ComputePostDominatingHoles_loop rest g
           | Return \<Rightarrow> ComputePostDominatingHoles_loop rest g))"

definition ComputePostDominatingHoles :: "Graph \<Rightarrow> Graph option" where
  "ComputePostDominatingHoles g = ComputePostDominatingHoles_loop (rev [0..<length g]) g"

text \<open>
  The constructor runs the pass and then the allocation; the number of stack slots it records
  on the graph is \<open>top_of_stack\<close> of the final state.
\<close>

definition StraightForwardRegisterAllocator :: "Graph \<Rightarrow> Allocator \<Rightarrow> (Graph \<times> Allocator) option" where
  "StraightForwardRegisterAllocator g s = do {
     g' \<leftarrow> ComputePostDominatingHoles g;
     s' \<leftarrow> AllocateRegisters g' s;
     Some (g', s')
   }"

subsection \<open>Agreement of the liveness records with the register file\<close>

text \<open>
  A record whose register field is set is the entry of that register in the register file.
\<close>

definition registers_agree :: "Allocator \<Rightarrow> bool" where
  "registers_agree s =
     (\<forall>v info r. values_tbl s v = Some info \<longrightarrow> reg info = Reg r
        \<longrightarrow> r < length (register_values s) \<and> register_values s ! r = Some v)"

text \<open>The record stored for a value describes that value.\<close>

definition records_describe_keys :: "Allocator \<Rightarrow> bool" where
  "records_describe_keys s = (\<forall>v info. values_tbl s v = Some info \<longrightarrow> node info = v)"

definition consistent :: "Allocator \<Rightarrow> bool" where
  "consistent s = (registers_agree s \<and> records_describe_keys s)"

subsection \<open>Notions used in the statements\<close>

text \<open>The next use of the value held by register \<open>i\<close>.\<close>

definition next_use_at :: "Allocator \<Rightarrow> nat \<Rightarrow> nat" where
  "next_use_at s i =
     (case register_values s ! i of
        None \<Rightarrow> 0
      | Some q \<Rightarrow> (case values_tbl s q of None \<Rightarrow> 0 | Some info \<Rightarrow> next_use info))"

text \<open>Register \<open>i\<close> holds a record of the table.\<close>

definition occupied :: "Allocator \<Rightarrow> nat \<Rightarrow> bool" where
  "occupied s i = (\<exists>q info. register_values s ! i = Some q \<and> values_tbl s q = Some info)"

text \<open>
  The state in which \<^verbatim>\<open>AllocateNode\<close> reaches its tests of \<^verbatim>\<open>is_call()\<close> and
  \<^verbatim>\<open>can_deopt()\<close>: the inputs and temporaries are assigned and the uses are updated.
\<close>

definition state_at_side_effects :: "Node \<Rightarrow> Allocator \<Rightarrow> Allocator option" where
  "state_at_side_effects n s = do {
     s1 \<leftarrow> AssignInputs (nd_id n) 0 (nd_inputs n) s;
     s2 \<leftarrow> AssignTemporaries n s1;
     UpdateInputs (nd_id n) (nd_inputs n) s2
   }"

definition info_of :: "ValueNode \<Rightarrow> Allocator \<Rightarrow> LiveNodeInfo option" where
  "info_of v s = values_tbl s v"

text \<open>Entry \<open>i\<close> of the register state of the block at position \<open>b\<close>.\<close>

definition target_entry :: "nat \<Rightarrow> nat \<Rightarrow> Allocator \<Rightarrow> RegisterState option" where
  "target_entry b i s = map_option (\<lambda>target_state. target_state ! i) (register_state s b)"

text \<open>
  What a run leaves apart from its trace: the state with the trace flag and the diagnostic
  sink reset. Two states with the same erasure have the same register file, liveness records,
  stack slots, operands on inputs and results, spill slots, temporaries, register states of
  the blocks and gap moves.
\<close>

definition erase_trace :: "Allocator \<Rightarrow> Allocator" where
  "erase_trace s = s\<lparr>trace_regalloc := False, os := []\<rparr>"

text \<open>
  The chain of post-dominating holes of every block of the graph can be printed: it ends in
  a return or a loop jump.
\<close>

definition holes_printable :: "Graph \<Rightarrow> bool" where
  "holes_printable g = list_all (\<lambda>bi. print_holes g bi \<noteq> None) [0..<length g]"

text \<open>
  The blocks of a graph are stored in an order in which every jump and every branch goes to a
  later block of the graph; only a \<^verbatim>\<open>JumpLoop\<close> goes back.
\<close>

definition forward_edges :: "Graph \<Rightarrow> bool" where
  "forward_edges g =
     list_all (\<lambda>b. case kind (control_node (g ! b)) of
                      Jump t \<Rightarrow> b < t \<and> t < length g
                    | ConditionalControlNode if_true if_false \<Rightarrow>
                        b < if_true \<and> if_true < length g \<and> b < if_false \<and> if_false < length g
                    | JumpLoop t \<Rightarrow> True
                    | Return \<Rightarrow> True)
       [0..<length g]"

text \<open>
  A chain of holes that can be printed: it starts at a return or a loop jump, or at a jump
  whose next post-dominating hole is a later control node from which such a chain starts.
  The holes are computed from block \<open>k\<close> on when the nearest post-dominating hole of every
  block from \<open>k\<close> on is a later control node that starts such a chain.
\<close>

inductive hole_chain :: "Graph \<Rightarrow> nat \<Rightarrow> bool" for g :: Graph where
  ends: "block_at g c = Some b \<Longrightarrow> kind (control_node b) = Return \<Longrightarrow> hole_chain g c"
| loop_jump: "block_at g c = Some b \<Longrightarrow> kind (control_node b) = JumpLoop t \<Longrightarrow> hole_chain g c"
| jumps: "block_at g c = Some b \<Longrightarrow> kind (control_node b) = Jump t \<Longrightarrow> t < length g
            \<Longrightarrow> next_post_dominating_hole (control_node b) = Some c' \<Longrightarrow> c < c'
            \<Longrightarrow> hole_chain g c' \<Longrightarrow> hole_chain g c"

definition holes_computed :: "nat \<Rightarrow> Graph \<Rightarrow> bool" where
  "holes_computed k g =
     (\<forall>c. k \<le> c \<longrightarrow> c < length g \<longrightarrow>
        (\<exists>h. NearestPostDominatingHole g c = Some (Some h) \<and> c \<le> h \<and> hole_chain g h))"

subsection \<open>The initial state and example inputs\<close>

text \<open>
  Modelled from the spec: the initial values of the members are given in maglev-regalloc.h,
  which is not part of the sources. A fresh allocator has an empty register file of \<open>N\<close>
  entries, no liveness record, no free slot, and the first slot it allocates has index 0.
\<close>

definition initial_allocator :: "nat \<Rightarrow> bool \<Rightarrow> Allocator" where
  "initial_allocator N flag =
     \<lparr>register_values = replicate N None, values_tbl = Map.empty, free_slots = [],
      top_of_stack = 0, block_it = 0, node_it = None, input_allocated = Map.empty,
      result_allocated = Map.empty, node_spill = Map.empty, temporaries = Map.empty,
      register_state = Map.empty, gap_moves = [], trace_regalloc = flag, os = []\<rparr>"

text \<open>A value with id \<open>i\<close> whose last (and next) use is the node \<open>e\<close>.\<close>

definition value_node :: "nat \<Rightarrow> nat \<Rightarrow> ValueNode" where
  "value_node i e = \<lparr>node_id = i, live_range_end = e, first_use = e\<rparr>"

definition use_of :: "ValueNode \<Rightarrow> UnallocatedOperand \<Rightarrow> Input" where
  "use_of v policy = \<lparr>input_node = v, next_use_id = live_range_end v, input_operand = policy\<rparr>"

text \<open>A node that defines the value \<open>value_node i e\<close> in some register.\<close>

definition def_node :: "nat \<Rightarrow> nat \<Rightarrow> Node" where
  "def_node i e =
     \<lparr>nd_id = i, nd_inputs = [], num_temporaries_needed = 0, is_call = False, can_deopt = False,
      nd_value = Some (e, e, EXTENDED_POLICY MUST_HAVE_REGISTER 0)\<rparr>"

text \<open>A node without result that reads the given inputs.\<close>

definition plain_node :: "nat \<Rightarrow> Input list \<Rightarrow> Node" where
  "plain_node i ins =
     \<lparr>nd_id = i, nd_inputs = ins, num_temporaries_needed = 0, is_call = False, can_deopt = False,
      nd_value = None\<rparr>"

text \<open>A register file of four registers whose first register holds a spilled value.\<close>

definition resident_info :: "ValueNode \<Rightarrow> int option \<Rightarrow> nat \<Rightarrow> LiveNodeInfo" where
  "resident_info v slot r =
     \<lparr>node = v, last_use = live_range_end v, next_use = first_use v, stack_slot = slot, reg = Reg r\<rparr>"

definition one_resident :: "ValueNode \<Rightarrow> int option \<Rightarrow> Allocator" where
  "one_resident v slot =
     (initial_allocator 4 False)
       \<lparr>register_values := [Some v, None, None, None],
        values_tbl := [v \<mapsto> resident_info v slot 0],
        top_of_stack := 2\<rparr>"

text \<open>Four values defined one after the other in a fresh allocator with four registers.\<close>

definition four_resident :: "Allocator option" where
  "four_resident =
     AllocateNode (def_node 1 6) (initial_allocator 4 False) \<bind> AllocateNode (def_node 2 7)
       \<bind> AllocateNode (def_node 3 8) \<bind> AllocateNode (def_node 4 9)"

text \<open>
  A full register file; the values in registers 1 and 2 have the farthest next use. The value
  with id 5 has a record and no location yet.
\<close>

definition full_file :: Allocator where
  "full_file =
     (initial_allocator 4 False)
       \<lparr>register_values := [Some (value_node 1 6), Some (value_node 2 9),
                            Some (value_node 3 9), Some (value_node 4 7)],
        values_tbl := [value_node 1 6 \<mapsto> resident_info (value_node 1 6) None 0,
                       value_node 2 9 \<mapsto> resident_info (value_node 2 9) None 1,
                       value_node 3 9 \<mapsto> resident_info (value_node 3 9) None 2,
                       value_node 4 7 \<mapsto> resident_info (value_node 4 7) None 3,
                       value_node 5 8 \<mapsto> (resident_info (value_node 5 8) None 0)\<lparr>reg := no_reg\<rparr>]\<rparr>"

text \<open>
  A run that leaves a value in a register that its record does not name. The value of node 1
  is defined in register 0; node 2 reads it in the fixed register 1 and can deoptimize, so
  the value is in both registers, named by register 1, and spilled; the result of node 3
  takes the fixed register 1, which resets the register field of the value; the values of
  nodes 4 and 5 fill the file. All four values are next used by node 6.
\<close>

definition evicted_copy_run :: "Allocator option" where
  "evicted_copy_run =
     AllocateNode (def_node 1 6) (initial_allocator 4 False)
       \<bind> AllocateNode ((plain_node 2 [use_of (value_node 1 6) (EXTENDED_POLICY FIXED_REGISTER 1)])
                             \<lparr>can_deopt := True\<rparr>)
       \<bind> AllocateNode ((def_node 3 6)\<lparr>nd_value := Some (6, 6, EXTENDED_POLICY FIXED_REGISTER 1)\<rparr>)
       \<bind> AllocateNode (def_node 4 6)
       \<bind> AllocateNode (def_node 5 6)"

text \<open>A block without phis and nodes whose control node is a return with id \<open>c\<close>.\<close>

definition return_block :: "nat \<Rightarrow> nat \<Rightarrow> BasicBlock" where
  "return_block f c =
     \<lparr>first_id = f, FirstNonGapMoveId = f, is_empty_block = False, predecessor_id = 0,
      predecessor_count = 2, phis = [], nodes = [],
      control_node = \<lparr>nd_id = c, nd_inputs = [], num_temporaries_needed = 0, is_call = False,
                       can_deopt = False, nd_value = None, kind = Return,
                       next_post_dominating_hole = None\<rparr>\<rparr>"

text \<open>
  A merge point with two predecessors, and a state in which its register state is initialized
  with no value in any register while register 0 holds a value that is live at the block.
\<close>

definition merge_block :: BasicBlock where
  "merge_block = (return_block 10 12)\<lparr>predecessor_count := 2\<rparr>"

definition merging_state :: "int option \<Rightarrow> Allocator" where
  "merging_state slot =
     (one_resident (value_node 1 11) slot)
       \<lparr>register_state := [7 \<mapsto> [NodeState None, NodeState None, NodeState None, NodeState None]]\<rparr>"

text \<open>
  A graph of three blocks: two blocks that define a value each and jump to the third, which
  merges the two values in a phi and returns it.
\<close>

definition ctl :: "nat \<Rightarrow> Input list \<Rightarrow> ControlKind \<Rightarrow> nat option \<Rightarrow> ControlNode" where
  "ctl i ins k hole =
     \<lparr>nd_id = i, nd_inputs = ins, num_temporaries_needed = 0, is_call = False,
      can_deopt = False, nd_value = None, kind = k, next_post_dominating_hole = hole\<rparr>"

definition phi_graph :: Graph where
  "phi_graph =
     [\<lparr>first_id = 1, FirstNonGapMoveId = 1, is_empty_block = False, predecessor_id = 0,
       predecessor_count = 0, phis = [], nodes = [def_node 1 2],
       control_node = ctl 2 [] (Jump 2) (Some 2)\<rparr>,
      \<lparr>first_id = 3, FirstNonGapMoveId = 3, is_empty_block = False, predecessor_id = 1,
       predecessor_count = 0, phis = [], nodes = [def_node 3 4],
       control_node = ctl 4 [] (Jump 2) (Some 2)\<rparr>,
      \<lparr>first_id = 5, FirstNonGapMoveId = 5, is_empty_block = False, predecessor_id = 0,
       predecessor_count = 2,
       phis = [\<lparr>phi_node = value_node 5 6,
                phi_inputs = [use_of (value_node 1 2) (EXTENDED_POLICY REGISTER_OR_SLOT 0),
                              use_of (value_node 3 4) (EXTENDED_POLICY REGISTER_OR_SLOT 0)]\<rparr>],
       nodes = [],
       control_node = ctl 6 [use_of (value_node 5 6) (EXTENDED_POLICY REGISTER_OR_SLOT 0)] Return None\<rparr>]"

definition phi_start :: "bool \<Rightarrow> Allocator" where
  "phi_start flag = (initial_allocator 4 flag)\<lparr>register_state := [2 \<mapsto> replicate 4 NotInitialized]\<rparr>"

text \<open>
  A graph of four blocks: a branch to two blocks that jump to the last block, the second of
  them by falling through. The value of node 1 is live across the branch and used by the
  return.
\<close>

definition plain_block :: "nat \<Rightarrow> nat \<Rightarrow> Node list \<Rightarrow> ControlNode \<Rightarrow> BasicBlock" where
  "plain_block f pred ns c =
     \<lparr>first_id = f, FirstNonGapMoveId = f, is_empty_block = False, predecessor_id = pred,
      predecessor_count = 0, phis = [], nodes = ns, control_node = c\<rparr>"

definition diamond_graph :: Graph where
  "diamond_graph =
     [plain_block 1 0 [def_node 1 9] (ctl 2 [] (ConditionalControlNode 1 2) None),
      plain_block 3 0 [def_node 3 4] (ctl 4 [] (Jump 3) None),
      plain_block 5 1 [def_node 5 6] (ctl 6 [] (Jump 3) None),
      (plain_block 7 0 [plain_node 8 []]
         (ctl 9 [use_of (value_node 1 9) (EXTENDED_POLICY REGISTER_OR_SLOT 0)] Return None))
        \<lparr>predecessor_count := 2\<rparr>]"

definition diamond_start :: "bool \<Rightarrow> Allocator" where
  "diamond_start flag =
     (initial_allocator 4 flag)
       \<lparr>register_state := [2 \<mapsto> replicate 4 NotInitialized, 3 \<mapsto> replicate 4 NotInitialized]\<rparr>"

subsection \<open>The states of a run\<close>

text \<open>
  The states of a run of the allocator between its steps. A run starts from a fresh allocator
  and the register states that the blocks with a merge state bring with them; a step moves
  the cursors, prints, restores the register file of a merge point, activates the phis of a
  block, or processes a node or a control node.
\<close>

inductive reachable :: "Graph \<Rightarrow> Allocator \<Rightarrow> bool" for g :: Graph where
  start: "reachable g ((initial_allocator N flag)\<lparr>register_state := states\<rparr>)"
| cursor: "reachable g s \<Longrightarrow> reachable g (s\<lparr>block_it := bi, node_it := ni\<rparr>)"
| printed: "reachable g s \<Longrightarrow> reachable g (trace e s)"
| restore: "reachable g s \<Longrightarrow> InitializeRegisterValues target_state s = Some s' \<Longrightarrow> reachable g s'"
| traced: "reachable g s \<Longrightarrow> trace_block g bi s = Some s' \<Longrightarrow> reachable g s'"
| phis: "reachable g s \<Longrightarrow> activate_phis ps s = Some s' \<Longrightarrow> reachable g s'"
| node: "reachable g s \<Longrightarrow> AllocateNode n s = Some s' \<Longrightarrow> reachable g s'"
| control: "reachable g s \<Longrightarrow> AllocateControlNode g n block s = Some s' \<Longrightarrow> reachable g s'"

section \<open>Properties\<close>

subsection \<open>Dead values are released once\<close>

lemma clear_registers_of_length: "length (clear_registers_of p rv) = length rv"
  by (simp add: clear_registers_of_def)

lemma clear_registers_of_notin: "Some p \<notin> set (clear_registers_of p rv)"
  by (auto simp: clear_registers_of_def)

lemma clear_registers_of_nth:
  "i < length rv \<Longrightarrow> clear_registers_of p rv ! i = (if rv ! i = Some p then None else rv ! i)"
  by (simp add: clear_registers_of_def)

lemma Update_absent_stays_absent:
  assumes "UpdateInputUseAndClearDead use input s = Some s'" and "values_tbl s v = None"
  shows "values_tbl s' v = None"
  using assms
  by (auto simp: UpdateInputUseAndClearDead_def Let_def set_info_def
           split: if_splits option.splits)

lemma UpdateInputs_absent_stays_absent:
  "UpdateInputs use rest s = Some s' \<Longrightarrow> values_tbl s v = None \<Longrightarrow> values_tbl s' v = None"
proof (induction rest arbitrary: s)
  case Nil
  then show ?case by simp
next
  case (Cons input rest)
  from Cons.prems(1) obtain s1 where
    step: "UpdateInputUseAndClearDead use input s = Some s1" and
    tail: "UpdateInputs use rest s1 = Some s'"
    by (auto split: option.splits)
  from Update_absent_stays_absent[OF step Cons.prems(2)] Cons.IH[OF tail]
  show ?case by blast
qed

lemma Update_dead_absent_noop:
  "live_range_end (input_node input) = use \<Longrightarrow> values_tbl s (input_node input) = None
     \<Longrightarrow> UpdateInputUseAndClearDead use input s = Some s"
  by (simp add: UpdateInputUseAndClearDead_def)

text \<open>
  A node whose id is the end of the live range of \<open>v\<close> and that has \<open>v\<close> as an input more than
  once: the first call of \<^verbatim>\<open>UpdateInputUseAndClearDead\<close> for \<open>v\<close> removes its record and
  clears its registers; it adds the slot of \<open>v\<close> to the free-list when the index of the slot
  is positive. Whatever inputs are processed in between, a later call for \<open>v\<close> returns the
  state as it found it.
\<close>

lemma later_calls_find_no_record:
  assumes dead: "live_range_end (input_node i1) = use"
    and same: "input_node i2 = input_node i1"
    and live: "values_tbl s (input_node i1) = Some info"
  shows "\<exists>s1. UpdateInputUseAndClearDead use i1 s = Some s1
           \<and> values_tbl s1 (input_node i1) = None
           \<and> Some (input_node i1) \<notin> set (register_values s1)
           \<and> free_slots s1 =
               free_slots s @ (case stack_slot info of
                                 None \<Rightarrow> []
                               | Some i \<Rightarrow> if i > 0 then [i] else [])
           \<and> (\<forall>rest s2. UpdateInputs use rest s1 = Some s2
                  \<longrightarrow> UpdateInputUseAndClearDead use i2 s2 = Some s2)"
proof -
  obtain s1 where first: "UpdateInputUseAndClearDead use i1 s = Some s1"
    using dead live by (simp add: UpdateInputUseAndClearDead_def Let_def)
  have gone: "values_tbl s1 (input_node i1) = None"
    using first dead live
    by (auto simp: UpdateInputUseAndClearDead_def Let_def split: option.splits if_splits)
  have regs: "Some (input_node i1) \<notin> set (register_values s1)"
    using first dead live clear_registers_of_notin[of "input_node i1" "register_values s"]
    by (auto simp: UpdateInputUseAndClearDead_def Let_def split: option.splits if_splits)
  have slots: "free_slots s1 =
      free_slots s @ (case stack_slot info of None \<Rightarrow> [] | Some i \<Rightarrow> if i > 0 then [i] else [])"
    using first dead live
    by (auto simp: UpdateInputUseAndClearDead_def Let_def split: option.splits if_splits)
  have later: "UpdateInputUseAndClearDead use i2 s2 = Some s2"
    if "UpdateInputs use rest s1 = Some s2" for rest s2
  proof -
    have "values_tbl s2 (input_node i2) = None"
      using UpdateInputs_absent_stays_absent[OF that gone] same by simp
    then show ?thesis
      using Update_dead_absent_noop dead same by simp
  qed
  from first gone regs slots later show ?thesis by blast
qed

text \<open>
  Claim C10. The value of node 1 is spilled to the local slot 0 by node 2, which can
  deoptimize, and node 3, its last use, has it as an input twice. The first call of
  \<^verbatim>\<open>UpdateInputUseAndClearDead\<close> removes the record and clears the register, and the second
  call changes nothing, but the slot is not freed by either: the free-list is empty after
  the node while one slot is allocated. The slot of the dead value is returned zero times,
  not once; this is the test \<^verbatim>\<open>index() > 0\<close> that also decides claim C2.
\<close>

theorem duplicate_dead_input_slot_zero:
  "(case AllocateNode (def_node 1 3) (initial_allocator 4 False)
           \<bind> AllocateNode ((plain_node 2 [])\<lparr>can_deopt := True\<rparr>) of
      None \<Rightarrow> False
    | Some s2 \<Rightarrow>
        register_values s2 = [Some (value_node 1 3), None, None, None]
        \<and> map_option stack_slot (values_tbl s2 (value_node 1 3)) = Some (Some 0)
        \<and> free_slots s2 = []
        \<and> (case UpdateInputUseAndClearDead 3
                   (use_of (value_node 1 3) (EXTENDED_POLICY REGISTER_OR_SLOT 0)) s2 of
              None \<Rightarrow> False
            | Some s3 \<Rightarrow>
                values_tbl s3 (value_node 1 3) = None
                \<and> register_values s3 = [None, None, None, None]
                \<and> free_slots s3 = []
                \<and> (case UpdateInputUseAndClearDead 3
                           (use_of (value_node 1 3) (EXTENDED_POLICY REGISTER_OR_SLOT 0)) s3 of
                      None \<Rightarrow> False
                    | Some s4 \<Rightarrow>
                        values_tbl s4 (value_node 1 3) = None
                        \<and> register_values s4 = [None, None, None, None]
                        \<and> free_slots s4 = []))
        \<and> map_option free_slots
            (AllocateNode
               (plain_node 3 [use_of (value_node 1 3) (EXTENDED_POLICY REGISTER_OR_SLOT 0),
                              use_of (value_node 1 3) (EXTENDED_POLICY REGISTER_OR_SLOT 0)]) s2)
            = Some []
        \<and> map_option top_of_stack
            (AllocateNode
               (plain_node 3 [use_of (value_node 1 3) (EXTENDED_POLICY REGISTER_OR_SLOT 0),
                              use_of (value_node 1 3) (EXTENDED_POLICY REGISTER_OR_SLOT 0)]) s2)
            = Some 1)"
  by code_simp

subsection \<open>The slot with index 0 is not returned to the free-list\<close>

text \<open>
  Claim C2. A value is defined in a register, a node that can deoptimize spills it to the
  first slot of a fresh frame, which has index 0, and the next node is its last use. The
  record is destroyed, and the free-list is still empty afterwards: the test
  \<^verbatim>\<open>index() > 0\<close> of \<^verbatim>\<open>UpdateInputUseAndClearDead\<close> leaves the local slot 0 out.
\<close>

theorem slot_zero_not_returned:
  "(case AllocateNode (def_node 1 3) (initial_allocator 4 False)
           \<bind> AllocateNode ((plain_node 2 [])\<lparr>can_deopt := True\<rparr>) of
      None \<Rightarrow> False
    | Some s2 \<Rightarrow>
        map_option stack_slot (values_tbl s2 (value_node 1 3)) = Some (Some 0)
        \<and> (case AllocateNode
                   (plain_node 3 [use_of (value_node 1 3) (EXTENDED_POLICY REGISTER_OR_SLOT 0)]) s2 of
              None \<Rightarrow> False
            | Some s3 \<Rightarrow> values_tbl s3 (value_node 1 3) = None \<and> free_slots s3 = []
                         \<and> top_of_stack s3 = 1))"
  by code_simp

subsection \<open>Temporaries\<close>

text \<open>
  Claim C3. Four values occupy the four registers and the next node needs two temporaries.
  \<^verbatim>\<open>GetFreeRegisters\<close> evicts the value with the farthest next use (register 3) in the first
  round of its \<^verbatim>\<open>while\<close> loop; \<open>furthest_use\<close> and \<open>longest\<close> are not reset, so the second
  round finds no farther use, frees the same register again and adds it again: the node
  gets one register for its two temporaries and three registers stay occupied.
\<close>

theorem two_temporaries_one_register:
  "(case four_resident
           \<bind> AllocateNode ((plain_node 5 [])\<lparr>num_temporaries_needed := 2\<rparr>) of
      None \<Rightarrow> False
    | Some s \<Rightarrow>
        temporaries s 5 = Some {Reg 3}
        \<and> register_values s =
            [Some (value_node 1 6), Some (value_node 2 7), Some (value_node 3 8), None])"
  unfolding four_resident_def by code_simp

text \<open>Ids below \<open>2\<^sup>3\<^sup>1\<close> are compared by the eviction loop as they are.\<close>

lemma uint32_to_int_small: "n < 2147483648 \<Longrightarrow> uint32_to_int n = int n"
  by (simp add: uint32_to_int_def)

subsection \<open>Liveness at a branch target\<close>

text \<open>
  Claim C4. The blocks of a graph occupy disjoint intervals of ids that end with their control
  node, so the id of a control node \<open>S\<close> with successor \<open>T\<close> is below the first id of \<open>T\<close> or at
  least the id of the control node of \<open>T\<close>. For such \<open>S\<close> and \<open>T\<close> and every liveness record:
  on a back edge (\<open>first_id T \<le> S\<close>) the record is live at \<open>T\<close> iff the id of its defining node
  is below \<open>FirstNonGapMoveId T\<close>, and on a forward edge iff its last use is at least
  \<open>first_id T\<close>. (The code recognises the back edge by the id of the control node of \<open>T\<close>
  being at most \<open>S\<close>.)
\<close>

theorem IsLiveAtTarget_as_specified:
  assumes "values_tbl s p = Some info"
    and "first_id target \<le> nd_id (control_node target)"
    and "source_id < first_id target \<or> nd_id (control_node target) \<le> source_id"
  shows "IsLiveAtTarget s (Some p) source_id target =
           Some (if first_id target \<le> source_id
                 then node_id (node info) < FirstNonGapMoveId target
                 else last_use info \<ge> first_id target)"
  using assms by (auto simp: IsLiveAtTarget_def)

theorem IsLiveAtTarget_as_specified_witness:
  "IsLiveAtTarget (one_resident (value_node 1 3) None) (Some (value_node 1 3)) 9
      (return_block 2 5) = Some True
   \<and> IsLiveAtTarget (one_resident (value_node 1 3) None) (Some (value_node 1 3)) 1
      (return_block 4 5) = Some False"
  using IsLiveAtTarget_as_specified
          [of "one_resident (value_node 1 3) None" "value_node 1 3"
              "resident_info (value_node 1 3) None 0" "return_block 2 5" 9]
        IsLiveAtTarget_as_specified
          [of "one_resident (value_node 1 3) None" "value_node 1 3"
              "resident_info (value_node 1 3) None 0" "return_block 4 5" 1]
  by (simp add: one_resident_def resident_info_def value_node_def initial_allocator_def
                return_block_def)

subsection \<open>Effect of the primitives on the register file and the records\<close>

lemma trace_fields [simp]:
  "register_values (trace e s) = register_values s"
  "values_tbl (trace e s) = values_tbl s"
  "free_slots (trace e s) = free_slots s"
  "top_of_stack (trace e s) = top_of_stack s"
  "block_it (trace e s) = block_it s"
  "node_it (trace e s) = node_it s"
  "input_allocated (trace e s) = input_allocated s"
  "result_allocated (trace e s) = result_allocated s"
  "node_spill (trace e s) = node_spill s"
  "temporaries (trace e s) = temporaries s"
  "register_state (trace e s) = register_state s"
  "gap_moves (trace e s) = gap_moves s"
  "trace_regalloc (trace e s) = trace_regalloc s"
  by (simp_all add: trace_def)

lemma set_info_fields [simp]:
  "register_values (set_info p info s) = register_values s"
  "values_tbl (set_info p info s) = (values_tbl s)(p \<mapsto> info)"
  "free_slots (set_info p info s) = free_slots s"
  "top_of_stack (set_info p info s) = top_of_stack s"
  "trace_regalloc (set_info p info s) = trace_regalloc s"
  by (simp_all add: set_info_def)

lemma AddMove_fields [simp]:
  "register_values (AddMoveBeforeCurrentNode a b s) = register_values s"
  "values_tbl (AddMoveBeforeCurrentNode a b s) = values_tbl s"
  "free_slots (AddMoveBeforeCurrentNode a b s) = free_slots s"
  "top_of_stack (AddMoveBeforeCurrentNode a b s) = top_of_stack s"
  "trace_regalloc (AddMoveBeforeCurrentNode a b s) = trace_regalloc s"
  by (simp_all add: AddMoveBeforeCurrentNode_def)

lemma count_simps [simp]:
  "kAllocatableGeneralRegisterCount (trace e s) = kAllocatableGeneralRegisterCount s"
  "kAllocatableGeneralRegisterCount (set_info p info s) = kAllocatableGeneralRegisterCount s"
  "kAllocatableGeneralRegisterCount (AddMoveBeforeCurrentNode a b s) = kAllocatableGeneralRegisterCount s"
  "kAllocatableGeneralRegisterCount (s\<lparr>register_values := rv\<rparr>) = length rv"
  by (simp_all add: kAllocatableGeneralRegisterCount_def)

lemma MapRegisterToIndex_Some:
  "MapRegisterToIndex N r = Some k \<longleftrightarrow> r = Reg k \<and> k < N"
  by (cases r) auto

lemma MapIndexToRegister_Some:
  "MapIndexToRegister N i = Some r \<longleftrightarrow> r = Reg i \<and> i < N"
  by (auto simp: MapIndexToRegister_def)

lemma AllocateSpillSlot_effect:
  assumes "AllocateSpillSlot p s = Some s'"
  shows "register_values s' = register_values s
       \<and> (\<exists>info i. values_tbl s p = Some info
             \<and> values_tbl s' = (values_tbl s)(p \<mapsto> info\<lparr>stack_slot := Some i\<rparr>))"
  using assms
  by (auto simp: AllocateSpillSlot_def split: option.splits list.splits)

lemma Spill_effect:
  assumes "Spill p s = Some s'"
  shows "register_values s' = register_values s
       \<and> (\<exists>info. values_tbl s p = Some info
             \<and> (if stack_slot info \<noteq> None then values_tbl s' = values_tbl s
                 else \<exists>i. values_tbl s' = (values_tbl s)(p \<mapsto> info\<lparr>stack_slot := Some i\<rparr>)))"
proof -
  from assms obtain info where info: "values_tbl s p = Some info"
    by (auto simp: Spill_def split: option.splits)
  show ?thesis
  proof (cases "stack_slot info")
    case (Some a)
    with assms info show ?thesis by (auto simp: Spill_def)
  next
    case None
    with assms info obtain s1 info1 slot where
      a: "AllocateSpillSlot p s = Some s1" and b: "values_tbl s1 p = Some info1"
      and c: "stack_slot info1 = Some slot"
      and d: "s' = (trace (TraceSpill slot (node info1)) s1)
                    \<lparr>node_spill := (node_spill (trace (TraceSpill slot (node info1)) s1))
                                     (node info1 \<mapsto> STACK_SLOT slot)\<rparr>"
      by (auto simp: Spill_def Let_def bind_eq_Some_conv)
    from AllocateSpillSlot_effect[OF a] info None d show ?thesis by auto
  qed
qed

lemma Spill_total:
  "values_tbl s p = Some info \<Longrightarrow> \<exists>s'. Spill p s = Some s'"
  by (auto simp: Spill_def AllocateSpillSlot_def Let_def split: list.splits)

lemma Spill_has_slot:
  assumes "Spill p s = Some s'"
  shows "\<exists>info'. values_tbl s' p = Some info' \<and> stack_slot info' \<noteq> None"
proof -
  from Spill_effect[OF assms] obtain info where
    info: "values_tbl s p = Some info" and
    eff: "if stack_slot info \<noteq> None then values_tbl s' = values_tbl s
          else \<exists>i. values_tbl s' = (values_tbl s)(p \<mapsto> info\<lparr>stack_slot := Some i\<rparr>)"
    by blast
  show ?thesis
  proof (cases "stack_slot info")
    case None
    with eff obtain i where "values_tbl s' = (values_tbl s)(p \<mapsto> info\<lparr>stack_slot := Some i\<rparr>)"
      by auto
    then show ?thesis by simp
  next
    case (Some a)
    with eff info show ?thesis by simp
  qed
qed

lemma Spill_consistent:
  assumes "Spill p s = Some s'" "consistent s"
  shows "consistent s'"
  using Spill_effect[OF assms(1)] assms(2)
  unfolding consistent_def registers_agree_def records_describe_keys_def
  by (auto split: if_splits)

lemma first_holding_Some:
  "first_holding p es i0 = Some i \<Longrightarrow> \<exists>j. i = i0 + j \<and> j < length es \<and> es ! j = Some p"
proof (induction es arbitrary: i0)
  case Nil
  then show ?case by simp
next
  case (Cons e es)
  show ?case
  proof (cases "e = Some p")
    case True
    with Cons.prems show ?thesis by auto
  next
    case False
    with Cons.prems have "first_holding p es (Suc i0) = Some i" by simp
    from Cons.IH[OF this] obtain j where "i = Suc i0 + j" "j < length es" "es ! j = Some p"
      by blast
    then have "i = i0 + Suc j \<and> Suc j < length (e # es) \<and> (e # es) ! Suc j = Some p" by simp
    then show ?thesis by blast
  qed
qed

lemma first_holding_None:
  "first_holding p es i0 = None \<Longrightarrow> Some p \<notin> set es"
  by (induction es arbitrary: i0) (auto split: if_splits)

lemma first_empty_Some:
  "first_empty es i0 = Some i \<Longrightarrow>
     \<exists>j. i = i0 + j \<and> j < length es \<and> es ! j = None \<and> (\<forall>j' < j. es ! j' \<noteq> None)"
proof (induction es arbitrary: i0)
  case Nil
  then show ?case by simp
next
  case (Cons e es)
  show ?case
  proof (cases "e = None")
    case True
    with Cons.prems show ?thesis by auto
  next
    case False
    with Cons.prems have "first_empty es (Suc i0) = Some i" by simp
    from Cons.IH[OF this] obtain j where
      j: "i = Suc i0 + j" "j < length es" "es ! j = None" "\<forall>j' < j. es ! j' \<noteq> None"
      by blast
    have "\<forall>j' < Suc j. (e # es) ! j' \<noteq> None"
      using j(4) False by (auto simp: nth_Cons split: nat.splits)
    with j have "i = i0 + Suc j \<and> Suc j < length (e # es) \<and> (e # es) ! Suc j = None
                 \<and> (\<forall>j' < Suc j. (e # es) ! j' \<noteq> None)" by simp
    then show ?thesis by blast
  qed
qed

lemma first_empty_None:
  "first_empty es i0 = None \<longleftrightarrow> None \<notin> set es"
  by (induction es arbitrary: i0) auto

lemma move_search_Existing:
  "move_search_loop tbl nd skip es i0 idx = Some (Existing i) \<Longrightarrow>
     \<exists>j q qinfo. i = i0 + j \<and> j < length es \<and> i \<noteq> skip
        \<and> es ! j = Some q \<and> tbl q = Some qinfo \<and> node qinfo = nd"
proof (induction es arbitrary: i0 idx)
  case Nil
  then show ?case by simp
next
  case (Cons e es)
  have step: ?case if "move_search_loop tbl nd skip es (Suc i0) idx' = Some (Existing i)" for idx'
  proof -
    from Cons.IH[OF that] obtain j q qinfo where
      "i = Suc i0 + j" "j < length es" "i \<noteq> skip" "es ! j = Some q" "tbl q = Some qinfo"
      "node qinfo = nd" by blast
    then have "i = i0 + Suc j \<and> Suc j < length (e # es) \<and> i \<noteq> skip
        \<and> (e # es) ! Suc j = Some q \<and> tbl q = Some qinfo \<and> node qinfo = nd" by simp
    then show ?thesis by blast
  qed
  show ?case
  proof (cases "i0 = skip")
    case True
    with Cons.prems step show ?thesis by simp
  next
    case False
    show ?thesis
    proof (cases e)
      case None
      with False Cons.prems step show ?thesis by simp
    next
      case (Some q)
      with False Cons.prems obtain qinfo where q: "tbl q = Some qinfo"
        by (auto split: option.splits)
      show ?thesis
      proof (cases "node qinfo = nd")
        case True
        with False Some q Cons.prems have "i = i0" by simp
        with False Some q True
        have "i = i0 + 0 \<and> 0 < length (e # es) \<and> i \<noteq> skip
           \<and> (e # es) ! 0 = Some q \<and> tbl q = Some qinfo \<and> node qinfo = nd" by simp
        then show ?thesis by blast
      next
        case nm: False
        with False Some q Cons.prems step show ?thesis by simp
      qed
    qed
  qed
qed

lemma move_search_Candidate:
  "move_search_loop tbl nd skip es i0 idx = Some (Candidate (Some i)) \<Longrightarrow>
     idx = Some i \<or> (\<exists>j. i = i0 + j \<and> j < length es \<and> i \<noteq> skip \<and> es ! j = None)"
proof (induction es arbitrary: i0 idx)
  case Nil
  then show ?case by simp
next
  case (Cons e es)
  have step: "idx' = Some i \<or> (\<exists>j. i = i0 + j \<and> j < length (e # es) \<and> i \<noteq> skip \<and> (e # es) ! j = None)"
    if "move_search_loop tbl nd skip es (Suc i0) idx' = Some (Candidate (Some i))" for idx'
  proof -
    from Cons.IH[OF that] show ?thesis
    proof
      assume "idx' = Some i" then show ?thesis by simp
    next
      assume "\<exists>j. i = Suc i0 + j \<and> j < length es \<and> i \<noteq> skip \<and> es ! j = None"
      then obtain j where "i = Suc i0 + j" "j < length es" "i \<noteq> skip" "es ! j = None" by blast
      then have "i = i0 + Suc j \<and> Suc j < length (e # es) \<and> i \<noteq> skip \<and> (e # es) ! Suc j = None"
        by simp
      then show ?thesis by blast
    qed
  qed
  show ?case
  proof (cases "i0 = skip")
    case True
    with Cons.prems step show ?thesis by simp
  next
    case False
    show ?thesis
    proof (cases e)
      case None
      with False Cons.prems
      have "move_search_loop tbl nd skip es (Suc i0) (Some i0) = Some (Candidate (Some i))" by simp
      from step[OF this] show ?thesis
      proof
        assume "Some i0 = Some i"
        with None False have "i = i0 + 0 \<and> 0 < length (e # es) \<and> i \<noteq> skip \<and> (e # es) ! 0 = None"
          by simp
        then show ?thesis by blast
      qed simp
    next
      case (Some q)
      with False Cons.prems obtain qinfo where q: "tbl q = Some qinfo"
        by (auto split: option.splits)
      with False Some Cons.prems
      have "move_search_loop tbl nd skip es (Suc i0) idx = Some (Candidate (Some i))"
        by (auto split: if_splits)
      from step[OF this] show ?thesis .
    qed
  qed
qed

lemma SetRegister_effect:
  assumes "SetRegister r p s = Some s'"
  shows "\<exists>k info. r = Reg k \<and> k < length (register_values s) \<and> values_tbl s p = Some info
           \<and> register_values s' = (register_values s)[k := Some p]
           \<and> values_tbl s' = (values_tbl s)(p \<mapsto> info\<lparr>reg := r\<rparr>)"
  using assms
  by (auto simp: SetRegister_def bind_eq_Some_conv MapRegisterToIndex_Some
                 kAllocatableGeneralRegisterCount_def)

lemma SetRegister_consistent:
  assumes set: "SetRegister (Reg k) p s = Some s'" and cons: "consistent s"
    and free: "register_values s ! k = None \<or> register_values s ! k = Some p"
  shows "consistent s'"
proof -
  from SetRegister_effect[OF set] obtain info where
    k: "k < length (register_values s)" and info: "values_tbl s p = Some info"
    and rv: "register_values s' = (register_values s)[k := Some p]"
    and tbl: "values_tbl s' = (values_tbl s)(p \<mapsto> info\<lparr>reg := Reg k\<rparr>)"
    by auto
  have "registers_agree s'"
    unfolding registers_agree_def
  proof (intro allI impI)
    fix v vinfo r
    assume v: "values_tbl s' v = Some vinfo" and r: "reg vinfo = Reg r"
    show "r < length (register_values s') \<and> register_values s' ! r = Some v"
    proof (cases "v = p")
      case True
      with v r tbl rv k show ?thesis by auto
    next
      case False
      with v tbl have "values_tbl s v = Some vinfo" by simp
      with cons r have a: "r < length (register_values s)" "register_values s ! r = Some v"
        unfolding consistent_def registers_agree_def by blast+
      with free False have "r \<noteq> k" by auto
      with a rv show ?thesis by simp
    qed
  qed
  moreover have "records_describe_keys s'"
    using cons info tbl unfolding consistent_def records_describe_keys_def by auto
  ultimately show ?thesis unfolding consistent_def by simp
qed

lemma Free_cases [consumes 1, case_names empty elsewhere spilled existing moved holding spill]:
  assumes free: "Free r try_move s = Some s'"
  obtains
    (empty) k where "r = Reg k" "k < length (register_values s)" "register_values s ! k = None" "s' = s"
  | (elsewhere) k p info where "r = Reg k" "k < length (register_values s)"
      "register_values s ! k = Some p" "values_tbl s p = Some info" "reg info \<noteq> r"
      "register_values s' = (register_values s)[k := None]" "values_tbl s' = values_tbl s"
  | (spilled) k p info where "r = Reg k" "k < length (register_values s)"
      "register_values s ! k = Some p" "values_tbl s p = Some info" "reg info = r"
      "stack_slot info \<noteq> None"
      "register_values s' = (register_values s)[k := None]"
      "values_tbl s' = (values_tbl s)(p \<mapsto> info\<lparr>reg := no_reg\<rparr>)"
  | (existing) k p info i q qinfo where "r = Reg k" "k < length (register_values s)"
      "register_values s ! k = Some p" "values_tbl s p = Some info" "reg info = r"
      "stack_slot info = None" "try_move" "i < length (register_values s)" "i \<noteq> k"
      "register_values s ! i = Some q"
      "((values_tbl s)(p \<mapsto> info\<lparr>reg := no_reg\<rparr>)) q = Some qinfo" "node qinfo = node info"
      "register_values s' = (register_values s)[k := None]"
      "values_tbl s' = (values_tbl s)(p \<mapsto> info\<lparr>reg := Reg i\<rparr>)"
  | (moved) k p info i where "r = Reg k" "k < length (register_values s)"
      "register_values s ! k = Some p" "values_tbl s p = Some info" "reg info = r"
      "stack_slot info = None" "try_move" "i < length (register_values s)" "i \<noteq> k"
      "register_values s ! i = None"
      "register_values s' = (register_values s)[k := None, i := Some p]"
      "values_tbl s' = (values_tbl s)(p \<mapsto> info\<lparr>reg := Reg i\<rparr>)"
  | (holding) k p info i where "r = Reg k" "k < length (register_values s)"
      "register_values s ! k = Some p" "values_tbl s p = Some info" "reg info = r"
      "stack_slot info = None" "\<not> try_move" "i < length (register_values s)" "i \<noteq> k"
      "register_values s ! i = Some p"
      "register_values s' = (register_values s)[k := None]"
      "values_tbl s' = (values_tbl s)(p \<mapsto> info\<lparr>reg := Reg i\<rparr>)"
  | (spill) k p info slot where "r = Reg k" "k < length (register_values s)"
      "register_values s ! k = Some p" "values_tbl s p = Some info" "reg info = r"
      "stack_slot info = None"
      "\<not> try_move \<longrightarrow> Some p \<notin> set ((register_values s)[k := None])"
      "register_values s' = (register_values s)[k := None]"
      "values_tbl s' = (values_tbl s)(p \<mapsto> info\<lparr>reg := no_reg, stack_slot := Some slot\<rparr>)"
proof -
  from free obtain k where k: "r = Reg k" "k < length (register_values s)"
    by (auto simp: Free_def bind_eq_Some_conv MapRegisterToIndex_Some
                   kAllocatableGeneralRegisterCount_def)
  show thesis
  proof (cases "register_values s ! k")
    case None
    with free k have "s' = s"
      by (simp add: Free_def kAllocatableGeneralRegisterCount_def)
    with None k empty show thesis by blast
  next
    case (Some p)
    with free k obtain info where info: "values_tbl s p = Some info"
      by (auto simp: Free_def kAllocatableGeneralRegisterCount_def bind_eq_Some_conv)
    let ?s2 = "set_info p (info\<lparr>reg := no_reg\<rparr>) (s\<lparr>register_values := (register_values s)[k := None]\<rparr>)"
    have s2rv: "register_values ?s2 = (register_values s)[k := None]"
      and s2tbl: "values_tbl ?s2 = (values_tbl s)(p \<mapsto> info\<lparr>reg := no_reg\<rparr>)"
      by simp_all
    note occ = \<open>register_values s ! k = Some p\<close>
    show thesis
    proof (cases "r \<noteq> reg info")
      case True
      with free k Some info have "s' = s\<lparr>register_values := (register_values s)[k := None]\<rparr>"
        by (auto simp: Free_def kAllocatableGeneralRegisterCount_def)
      then show thesis using elsewhere[OF k Some info] True by simp
    next
      case same: False
      then have same': "reg info = r" by simp
      show thesis
      proof (cases "stack_slot info")
        case (Some a)
        with free k occ info same' have "s' = ?s2"
          by (auto simp: Free_def kAllocatableGeneralRegisterCount_def Let_def)
        then show thesis
          using spilled[OF k occ info same'] Some by simp
      next
        case None
        have spill_case: thesis
          if sp: "Spill p ?s2 = Some s'"
            and nh: "\<not> try_move \<longrightarrow> Some p \<notin> set ((register_values s)[k := None])"
        proof -
          from Spill_effect[OF sp] None obtain slot where
            "register_values s' = register_values ?s2"
            "values_tbl s' = (values_tbl ?s2)(p \<mapsto> info\<lparr>reg := no_reg\<rparr>\<lparr>stack_slot := Some slot\<rparr>)"
            by (auto split: if_splits)
          then show thesis
            using spill[OF k occ info same' None nh, of slot] by simp
        qed
        show thesis
        proof (cases try_move)
          case True
          from free k occ info same' None True obtain found where
            found: "move_search_loop ((values_tbl s)(p \<mapsto> info\<lparr>reg := no_reg\<rparr>)) (node info) k
                      ((register_values s)[k := None]) 0 None = Some found"
            by (auto simp: Free_def kAllocatableGeneralRegisterCount_def Let_def bind_eq_Some_conv)
          show thesis
          proof (cases found)
            case (Existing i)
            from move_search_Existing[OF found[unfolded Existing]] obtain q qinfo where
              i: "i < length (register_values s)" "i \<noteq> k"
                 "(register_values s)[k := None] ! i = Some q"
                 "((values_tbl s)(p \<mapsto> info\<lparr>reg := no_reg\<rparr>)) q = Some qinfo"
                 "node qinfo = node info"
              by auto
            from free k occ info same' None True found Existing i(1)
            have s': "s' = set_info p (info\<lparr>reg := Reg i\<rparr>) ?s2"
              by (simp add: Free_def kAllocatableGeneralRegisterCount_def Let_def
                            MapIndexToRegister_def)
            from s' have "register_values s' = (register_values s)[k := None]"
              "values_tbl s' = (values_tbl s)(p \<mapsto> info\<lparr>reg := Reg i\<rparr>)"
              by simp_all
            moreover from i have "register_values s ! i = Some q" by simp
            ultimately show thesis
              using existing[OF k occ info same' None True i(1,2) _ i(4,5)]
              by blast
          next
            case (Candidate c)
            show thesis
            proof (cases c)
              case cn: None
              from free k occ info same' None True found Candidate cn
              have "Spill p ?s2 = Some s'"
                by (simp add: Free_def kAllocatableGeneralRegisterCount_def Let_def)
              with spill_case True show thesis by simp
            next
              case (Some i)
              from move_search_Candidate[OF found[unfolded Candidate Some]] have
                i: "i < length (register_values s)" "i \<noteq> k"
                   "(register_values s)[k := None] ! i = None"
                by auto
              from free k occ info same' None True found Candidate Some i(1)
              obtain s3 where
                s3: "SetRegister (Reg i) p ?s2 = Some s3" and
                rvs': "register_values s' = register_values s3" "values_tbl s' = values_tbl s3"
                by (auto simp: Free_def kAllocatableGeneralRegisterCount_def Let_def
                            MapIndexToRegister_def bind_eq_Some_conv)
              from SetRegister_effect[OF s3] rvs'
              have "register_values s' = (register_values s)[k := None, i := Some p]"
                "values_tbl s' = (values_tbl s)(p \<mapsto> info\<lparr>reg := Reg i\<rparr>)"
                by auto
              moreover from i have "register_values s ! i = None" by simp
              ultimately show thesis
                using moved[OF k occ info same' None True i(1,2)]
                by blast
            qed
          qed
        next
          case False
          show thesis
          proof (cases "first_holding p ((register_values s)[k := None]) 0")
            case fn: None
            with free k occ info same' None False have "Spill p ?s2 = Some s'"
              by (auto simp: Free_def kAllocatableGeneralRegisterCount_def Let_def)
            moreover from first_holding_None[OF fn] have "Some p \<notin> set ((register_values s)[k := None])"
              by simp
            ultimately show thesis using spill_case by simp
          next
            case (Some i)
            from first_holding_Some[OF Some] have
              i: "i < length (register_values s)" "(register_values s)[k := None] ! i = Some p"
              by auto
            with k have ik: "i \<noteq> k" by auto
            from free k occ info same' None False Some i(1)
            have "s' = set_info p (info\<lparr>reg := Reg i\<rparr>) ?s2"
              by (auto simp: Free_def kAllocatableGeneralRegisterCount_def Let_def
                             bind_eq_Some_conv MapIndexToRegister_Some)
            then have "register_values s' = (register_values s)[k := None]"
              "values_tbl s' = (values_tbl s)(p \<mapsto> info\<lparr>reg := Reg i\<rparr>)"
              by simp_all
            moreover from i ik have "register_values s ! i = Some p" by simp
            ultimately show thesis
              using holding[OF k occ info same' None False i(1) ik]
              by blast
          qed
        qed
      qed
    qed
  qed
qed

lemma consistent_cong:
  "register_values s' = register_values s \<Longrightarrow> values_tbl s' = values_tbl s
     \<Longrightarrow> consistent s' = consistent s"
  by (simp add: consistent_def registers_agree_def records_describe_keys_def)

lemma consistentI:
  assumes "\<And>v info r. values_tbl s v = Some info \<Longrightarrow> reg info = Reg r
             \<Longrightarrow> r < length (register_values s) \<and> register_values s ! r = Some v"
    and "\<And>v info. values_tbl s v = Some info \<Longrightarrow> node info = v"
  shows "consistent s"
  using assms unfolding consistent_def registers_agree_def records_describe_keys_def by blast

lemma consistent_reg:
  "consistent s \<Longrightarrow> values_tbl s v = Some info \<Longrightarrow> reg info = Reg r
     \<Longrightarrow> r < length (register_values s) \<and> register_values s ! r = Some v"
  unfolding consistent_def registers_agree_def by blast

lemma consistent_node:
  "consistent s \<Longrightarrow> values_tbl s v = Some info \<Longrightarrow> node info = v"
  unfolding consistent_def records_describe_keys_def by blast

lemma Free_cleared:
  assumes "Free (Reg k) try_move s = Some s'"
  shows "length (register_values s') = length (register_values s)
       \<and> k < length (register_values s) \<and> register_values s' ! k = None"
  using assms by (cases rule: Free_cases) (auto simp: nth_list_update)

lemma Free_False_rv:
  assumes "Free (Reg k) False s = Some s'"
  shows "register_values s' = (register_values s)[k := None]"
  using assms
proof (cases rule: Free_cases)
  case (empty k')
  then have "(register_values s)[k := None] = register_values s"
    by (metis Register.inject list_update_id)
  with empty show ?thesis by simp
qed auto

lemma Free_other_values:
  assumes "Free (Reg k) try_move s = Some s'" and "register_values s ! k \<noteq> Some q"
  shows "values_tbl s' q = values_tbl s q"
  using assms by (cases rule: Free_cases) auto

lemma Free_False_total:
  assumes "k < length (register_values s)"
    and "\<And>p. register_values s ! k = Some p \<Longrightarrow> values_tbl s p \<noteq> None"
  shows "\<exists>s'. Free (Reg k) False s = Some s'"
proof (cases "register_values s ! k")
  case None
  with assms(1) show ?thesis by (simp add: Free_def kAllocatableGeneralRegisterCount_def)
next
  case (Some p)
  with assms(2) obtain info where info: "values_tbl s p = Some info" by auto
  let ?s2 = "set_info p (info\<lparr>reg := no_reg\<rparr>) (s\<lparr>register_values := (register_values s)[k := None]\<rparr>)"
  have sp: "\<exists>s'. Spill p ?s2 = Some s'"
    by (rule Spill_total[of _ _ "info\<lparr>reg := no_reg\<rparr>"]) simp
  show ?thesis
  proof (cases "first_holding p ((register_values s)[k := None]) 0")
    case None
    with Some info assms(1) sp show ?thesis
      by (auto simp: Free_def kAllocatableGeneralRegisterCount_def Let_def)
  next
    case (Some i)
    from first_holding_Some[OF Some] have "i < length (register_values s)" by auto
    with Some \<open>register_values s ! k = Some p\<close> info assms(1) show ?thesis
      by (auto simp: Free_def kAllocatableGeneralRegisterCount_def Let_def MapIndexToRegister_def)
  qed
qed

lemma Free_consistent:
  assumes free: "Free r try_move s = Some s'" and cons: "consistent s"
  shows "consistent s'"
  using free
proof (cases rule: Free_cases)
  case (empty k)
  with cons show ?thesis by simp
next
  case (elsewhere k p info)
  show ?thesis
  proof (rule consistentI)
    fix v vinfo j
    assume v: "values_tbl s' v = Some vinfo" "reg vinfo = Reg j"
    with elsewhere have "values_tbl s v = Some vinfo" by simp
    from consistent_reg[OF cons this v(2)] have j: "j < length (register_values s)"
      "register_values s ! j = Some v" by simp_all
    have "j \<noteq> k"
    proof
      assume "j = k"
      with j elsewhere have "v = p" by simp
      with \<open>values_tbl s v = Some vinfo\<close> elsewhere v(2) \<open>j = k\<close> show False by simp
    qed
    with j elsewhere show "j < length (register_values s') \<and> register_values s' ! j = Some v"
      by simp
  next
    fix v vinfo assume "values_tbl s' v = Some vinfo"
    with elsewhere consistent_node[OF cons] show "node vinfo = v" by simp
  qed
next
  case (spilled k p info)
  show ?thesis
  proof (rule consistentI)
    fix v vinfo j
    assume v: "values_tbl s' v = Some vinfo" "reg vinfo = Reg j"
    with spilled have vp: "v \<noteq> p" by auto
    with v spilled have "values_tbl s v = Some vinfo" by simp
    from consistent_reg[OF cons this v(2)] have j: "j < length (register_values s)"
      "register_values s ! j = Some v" by simp_all
    with vp spilled have "j \<noteq> k" by auto
    with j spilled show "j < length (register_values s') \<and> register_values s' ! j = Some v"
      by simp
  next
    fix v vinfo assume "values_tbl s' v = Some vinfo"
    with spilled consistent_node[OF cons] show "node vinfo = v"
      by (cases "v = p") auto
  qed
next
  case (existing k p info i q qinfo)
  have qp: "q = p"
  proof (rule ccontr)
    assume "q \<noteq> p"
    with existing have "values_tbl s q = Some qinfo" by simp
    from consistent_node[OF cons this] consistent_node[OF cons existing(4)] existing(12)
    show False using \<open>q \<noteq> p\<close> by simp
  qed
  show ?thesis
  proof (rule consistentI)
    fix v vinfo j
    assume v: "values_tbl s' v = Some vinfo" "reg vinfo = Reg j"
    show "j < length (register_values s') \<and> register_values s' ! j = Some v"
    proof (cases "v = p")
      case True
      with v existing qp show ?thesis by auto
    next
      case False
      with v existing have "values_tbl s v = Some vinfo" by simp
      from consistent_reg[OF cons this v(2)] have j: "j < length (register_values s)"
        "register_values s ! j = Some v" by simp_all
      with False existing have "j \<noteq> k" by auto
      with j existing show ?thesis by simp
    qed
  next
    fix v vinfo assume "values_tbl s' v = Some vinfo"
    with existing consistent_node[OF cons] show "node vinfo = v"
      by (cases "v = p") auto
  qed
next
  case (moved k p info i)
  show ?thesis
  proof (rule consistentI)
    fix v vinfo j
    assume v: "values_tbl s' v = Some vinfo" "reg vinfo = Reg j"
    show "j < length (register_values s') \<and> register_values s' ! j = Some v"
    proof (cases "v = p")
      case True
      with v moved show ?thesis by auto
    next
      case False
      with v moved have "values_tbl s v = Some vinfo" by simp
      from consistent_reg[OF cons this v(2)] have j: "j < length (register_values s)"
        "register_values s ! j = Some v" by simp_all
      with False moved have "j \<noteq> k" "j \<noteq> i" by auto
      with j moved show ?thesis by simp
    qed
  next
    fix v vinfo assume "values_tbl s' v = Some vinfo"
    with moved consistent_node[OF cons] show "node vinfo = v"
      by (cases "v = p") auto
  qed
next
  case (holding k p info i)
  show ?thesis
  proof (rule consistentI)
    fix v vinfo j
    assume v: "values_tbl s' v = Some vinfo" "reg vinfo = Reg j"
    show "j < length (register_values s') \<and> register_values s' ! j = Some v"
    proof (cases "v = p")
      case True
      with v holding show ?thesis by auto
    next
      case False
      with v holding have "values_tbl s v = Some vinfo" by simp
      from consistent_reg[OF cons this v(2)] have j: "j < length (register_values s)"
        "register_values s ! j = Some v" by simp_all
      with False holding have "j \<noteq> k" by auto
      with j holding show ?thesis by simp
    qed
  next
    fix v vinfo assume "values_tbl s' v = Some vinfo"
    with holding consistent_node[OF cons] show "node vinfo = v"
      by (cases "v = p") auto
  qed
next
  case (spill k p info slot)
  show ?thesis
  proof (rule consistentI)
    fix v vinfo j
    assume v: "values_tbl s' v = Some vinfo" "reg vinfo = Reg j"
    with spill have vp: "v \<noteq> p" by auto
    with v spill have "values_tbl s v = Some vinfo" by simp
    from consistent_reg[OF cons this v(2)] have j: "j < length (register_values s)"
      "register_values s ! j = Some v" by simp_all
    with vp spill have "j \<noteq> k" by auto
    with j spill show "j < length (register_values s') \<and> register_values s' ! j = Some v"
      by simp
  next
    fix v vinfo assume "values_tbl s' v = Some vinfo"
    with spill consistent_node[OF cons] show "node vinfo = v"
      by (cases "v = p") auto
  qed
qed

lemma DoAllocate_effect:
  assumes "DoAllocate r p s = Some (operand, s')"
  shows "\<exists>k. r = Reg k \<and> operand = REGISTER k \<and> SetRegister r p s = Some s'"
  using assms by (cases r) (auto simp: DoAllocate_def bind_eq_Some_conv)

lemma ForceAllocate_consistent:
  assumes fa: "ForceAllocate r p try_move s = Some (operand, s')" and cons: "consistent s"
  shows "consistent s'"
proof -
  from fa obtain k where k: "r = Reg k" "k < length (register_values s)"
    by (auto simp: ForceAllocate_def bind_eq_Some_conv MapRegisterToIndex_Some
                   kAllocatableGeneralRegisterCount_def)
  show ?thesis
  proof (cases "register_values s ! k = Some p")
    case True
    with fa k have "s' = s"
      by (auto simp: ForceAllocate_def kAllocatableGeneralRegisterCount_def bind_eq_Some_conv)
    with cons show ?thesis by simp
  next
    case False
    with fa k obtain s1 where s1: "Free (Reg k) try_move s = Some s1"
      and da: "DoAllocate (Reg k) p s1 = Some (operand, s')"
      by (auto simp: ForceAllocate_def kAllocatableGeneralRegisterCount_def bind_eq_Some_conv)
    from DoAllocate_effect[OF da] have "SetRegister (Reg k) p s1 = Some s'" by simp
    from SetRegister_consistent[OF this Free_consistent[OF s1 cons]] Free_cleared[OF s1]
    show ?thesis by simp
  qed
qed

lemma TryAllocateRegister_consistent:
  assumes ta: "TryAllocateRegister p s = Some (alloc, s')" and cons: "consistent s"
  shows "consistent s'"
proof (cases "first_empty (register_values s) 0")
  case None
  with ta cons show ?thesis by (simp add: TryAllocateRegister_def)
next
  case (Some i)
  from first_empty_Some[OF Some] have i: "i < length (register_values s)" "register_values s ! i = None"
    by auto
  with ta Some have "SetRegister (Reg i) p s = Some s'"
    by (auto simp: TryAllocateRegister_def bind_eq_Some_conv MapIndexToRegister_Some)
  from SetRegister_consistent[OF this cons] i show ?thesis by simp
qed

lemma TryAllocateRegister_full:
  assumes "TryAllocateRegister p s = Some (None, s')"
  shows "s' = s \<and> None \<notin> set (register_values s)"
  using assms
  by (cases "first_empty (register_values s) 0")
     (auto simp: TryAllocateRegister_def bind_eq_Some_conv first_empty_None)

lemma AllocateRegister_consistent:
  assumes ar: "AllocateRegister p s = Some (operand, s')" and cons: "consistent s"
  shows "consistent s'"
proof -
  from ar obtain alloc s1 where ta: "TryAllocateRegister p s = Some (alloc, s1)"
    by (auto simp: AllocateRegister_def bind_eq_Some_conv)
  show ?thesis
  proof (cases alloc)
    case (Some a)
    with ar ta have "s' = s1" by (simp add: AllocateRegister_def)
    with TryAllocateRegister_consistent[OF ta cons] show ?thesis by simp
  next
    case None
    with ar ta obtain r where "ForceAllocate r p False s1 = Some (operand, s')"
      by (auto simp: AllocateRegister_def bind_eq_Some_conv)
    from ForceAllocate_consistent[OF this TryAllocateRegister_consistent[OF ta cons]]
    show ?thesis .
  qed
qed

lemma evict_loop_consistent:
  "evict_loop count acc fr s = Some (fr', s') \<Longrightarrow> consistent s \<Longrightarrow> consistent s'"
proof (induction count arbitrary: acc fr s)
  case 0
  then show ?case by simp
next
  case (Suc count)
  from Suc.prems(1) obtain fu lg r s1 where
    free: "Free r False s = Some s1" and
    rest: "evict_loop count (fu, lg) (insert r fr) s1 = Some (fr', s')"
    by (auto simp: bind_eq_Some_conv)
  from Suc.IH[OF rest Free_consistent[OF free Suc.prems(2)]] show ?case .
qed

lemma GetFreeRegisters_consistent:
  assumes "GetFreeRegisters count s = Some (fr, s')" "consistent s"
  shows "consistent s'"
  using assms evict_loop_consistent
  by (auto simp: GetFreeRegisters_def bind_eq_Some_conv split: if_splits)

lemma AssignTemporaries_consistent:
  assumes "AssignTemporaries n s = Some s'" "consistent s"
  shows "consistent s'"
proof -
  from assms(1) obtain fr s1 where g: "GetFreeRegisters (num_temporaries_needed n) s = Some (fr, s1)"
    and s': "s' = s1\<lparr>temporaries := (temporaries s1)(nd_id n \<mapsto> fr)\<rparr>"
    by (auto simp: AssignTemporaries_def bind_eq_Some_conv)
  from GetFreeRegisters_consistent[OF g assms(2)] s' consistent_cong[of s' s1]
  show ?thesis by simp
qed

lemma AssignInput_cases:
  assumes ai: "AssignInput key input s = Some s'"
  shows "\<exists>allocated s1.
           (s1 = s
            \<or> (\<exists>idx. ForceAllocate (Reg idx) (input_node input) default_try_move s = Some (allocated, s1))
            \<or> AllocateRegister (input_node input) s = Some (allocated, s1))
           \<and> register_values s' = register_values s1 \<and> values_tbl s' = values_tbl s1"
proof -
  from ai obtain policy idx where pol: "input_operand input = EXTENDED_POLICY policy idx"
    by (auto simp: AssignInput_def split: UnallocatedOperand.splits)
  from ai pol obtain info location where
    info: "values_tbl s (input_node input) = Some info" and loc: "allocation info = Some location"
    by (auto simp: AssignInput_def bind_eq_Some_conv)
  have fin: "register_values
               (if location \<noteq> allocated
                then AddMoveBeforeCurrentNode location allocated
                       (trace (TraceGapMove allocated location)
                          (s1\<lparr>input_allocated := (input_allocated s1)(key \<mapsto> allocated)\<rparr>))
                else s1\<lparr>input_allocated := (input_allocated s1)(key \<mapsto> allocated)\<rparr>)
             = register_values s1
           \<and> values_tbl
               (if location \<noteq> allocated
                then AddMoveBeforeCurrentNode location allocated
                       (trace (TraceGapMove allocated location)
                          (s1\<lparr>input_allocated := (input_allocated s1)(key \<mapsto> allocated)\<rparr>))
                else s1\<lparr>input_allocated := (input_allocated s1)(key \<mapsto> allocated)\<rparr>)
             = values_tbl s1" for allocated s1
    by simp
  show ?thesis
  proof (cases policy)
    case REGISTER_OR_SLOT
    with ai pol info loc fin[of location s] show ?thesis
      by (auto simp: AssignInput_def Let_def)
  next
    case REGISTER_OR_SLOT_OR_CONSTANT
    with ai pol info loc fin[of location s] show ?thesis
      by (auto simp: AssignInput_def Let_def)
  next
    case FIXED_REGISTER
    with ai pol info loc obtain allocated s1 where
      fa: "ForceAllocate (Reg idx) (input_node input) default_try_move s = Some (allocated, s1)"
      and s': "s' = (if location \<noteq> allocated
                then AddMoveBeforeCurrentNode location allocated
                       (trace (TraceGapMove allocated location)
                          (s1\<lparr>input_allocated := (input_allocated s1)(key \<mapsto> allocated)\<rparr>))
                else s1\<lparr>input_allocated := (input_allocated s1)(key \<mapsto> allocated)\<rparr>)"
      by (auto simp: AssignInput_def Let_def bind_eq_Some_conv)
    with fin[of allocated s1] show ?thesis by blast
  next
    case MUST_HAVE_REGISTER
    show ?thesis
    proof (cases "IsRegister location")
      case True
      with MUST_HAVE_REGISTER ai pol info loc fin[of location s] show ?thesis
        by (auto simp: AssignInput_def Let_def)
    next
      case False
      with MUST_HAVE_REGISTER ai pol info loc obtain allocated s1 where
        fa: "AllocateRegister (input_node input) s = Some (allocated, s1)"
        and s': "s' = (if location \<noteq> allocated
                  then AddMoveBeforeCurrentNode location allocated
                         (trace (TraceGapMove allocated location)
                            (s1\<lparr>input_allocated := (input_allocated s1)(key \<mapsto> allocated)\<rparr>))
                  else s1\<lparr>input_allocated := (input_allocated s1)(key \<mapsto> allocated)\<rparr>)"
        by (auto simp: AssignInput_def Let_def bind_eq_Some_conv)
      with fin[of allocated s1] show ?thesis by blast
    qed
  next
    case NONE
    with ai pol info loc show ?thesis by (simp add: AssignInput_def)
  next
    case FIXED_FP_REGISTER
    with ai pol info loc show ?thesis by (simp add: AssignInput_def)
  next
    case MUST_HAVE_SLOT
    with ai pol info loc show ?thesis by (simp add: AssignInput_def)
  next
    case SAME_AS_INPUT
    with ai pol info loc show ?thesis by (simp add: AssignInput_def)
  qed
qed

lemma AssignInput_consistent:
  assumes ai: "AssignInput key input s = Some s'" and cons: "consistent s"
  shows "consistent s'"
proof -
  from AssignInput_cases[OF ai] obtain allocated s1 where
    alloc: "s1 = s
            \<or> (\<exists>idx. ForceAllocate (Reg idx) (input_node input) default_try_move s = Some (allocated, s1))
            \<or> AllocateRegister (input_node input) s = Some (allocated, s1)"
    and s': "register_values s' = register_values s1" "values_tbl s' = values_tbl s1"
    by blast
  from alloc have "consistent s1"
  proof (elim disjE exE)
    assume "s1 = s" with cons show ?thesis by simp
  next
    fix idx
    assume "ForceAllocate (Reg idx) (input_node input) default_try_move s = Some (allocated, s1)"
    from ForceAllocate_consistent[OF this cons] show ?thesis .
  next
    assume "AllocateRegister (input_node input) s = Some (allocated, s1)"
    from AllocateRegister_consistent[OF this cons] show ?thesis .
  qed
  with s' consistent_cong[of s' s1] show ?thesis by simp
qed

lemma AssignInputs_consistent:
  "AssignInputs owner k ins s = Some s' \<Longrightarrow> consistent s \<Longrightarrow> consistent s'"
proof (induction ins arbitrary: k s)
  case Nil
  then show ?case by simp
next
  case (Cons input ins)
  from Cons.prems(1) obtain s1 where a: "AssignInput (owner, k) input s = Some s1"
    and b: "AssignInputs owner (Suc k) ins s1 = Some s'"
    by (auto split: option.splits)
  from Cons.IH[OF b AssignInput_consistent[OF a Cons.prems(2)]] show ?case .
qed

lemma Update_consistent:
  assumes up: "UpdateInputUseAndClearDead use input s = Some s'" and cons: "consistent s"
  shows "consistent s'"
proof (cases "live_range_end (input_node input) = use")
  case dead: True
  show ?thesis
  proof (cases "values_tbl s (input_node input)")
    case None
    with up dead cons show ?thesis by (simp add: UpdateInputUseAndClearDead_def)
  next
    case (Some info)
    with up dead have
      rv: "register_values s' = clear_registers_of (input_node input) (register_values s)" and
      tbl: "values_tbl s' = (values_tbl s)(input_node input := None)"
      by (auto simp: UpdateInputUseAndClearDead_def Let_def split: option.splits if_splits)
    show ?thesis
    proof (rule consistentI)
      fix v vinfo j
      assume v: "values_tbl s' v = Some vinfo" "reg vinfo = Reg j"
      with tbl have vp: "v \<noteq> input_node input" and "values_tbl s v = Some vinfo"
        by (auto split: if_splits)
      from consistent_reg[OF cons this(2) v(2)] have j: "j < length (register_values s)"
        "register_values s ! j = Some v" by simp_all
      with vp rv show "j < length (register_values s') \<and> register_values s' ! j = Some v"
        by (simp add: clear_registers_of_length clear_registers_of_nth)
    next
      fix v vinfo assume "values_tbl s' v = Some vinfo"
      with tbl consistent_node[OF cons] show "node vinfo = v" by (auto split: if_splits)
    qed
  qed
next
  case False
  with up obtain info where info: "values_tbl s (input_node input) = Some info"
    and s': "s' = set_info (input_node input) (info\<lparr>next_use := next_use_id input\<rparr>) s"
    by (auto simp: UpdateInputUseAndClearDead_def Let_def split: option.splits)
  show ?thesis
  proof (rule consistentI)
    fix v vinfo j
    assume v: "values_tbl s' v = Some vinfo" "reg vinfo = Reg j"
    show "j < length (register_values s') \<and> register_values s' ! j = Some v"
    proof (cases "v = input_node input")
      case True
      with v s' have "reg info = Reg j" by auto
      from consistent_reg[OF cons info this] True s' show ?thesis by simp
    next
      case False
      with v s' have "values_tbl s v = Some vinfo" by simp
      from consistent_reg[OF cons this v(2)] s' show ?thesis by simp
    qed
  next
    fix v vinfo assume "values_tbl s' v = Some vinfo"
    with s' info consistent_node[OF cons] show "node vinfo = v"
      by (cases "v = input_node input") auto
  qed
qed

lemma UpdateInputs_consistent:
  "UpdateInputs use ins s = Some s' \<Longrightarrow> consistent s \<Longrightarrow> consistent s'"
proof (induction ins arbitrary: s)
  case Nil
  then show ?case by simp
next
  case (Cons input ins)
  from Cons.prems(1) obtain s1 where a: "UpdateInputUseAndClearDead use input s = Some s1"
    and b: "UpdateInputs use ins s1 = Some s'"
    by (auto split: option.splits)
  from Cons.IH[OF b Update_consistent[OF a Cons.prems(2)]] show ?case .
qed

lemma SpillRegisters_loop_consistent:
  "SpillRegisters_loop is s = Some s' \<Longrightarrow> consistent s \<Longrightarrow> consistent s'"
proof (induction "is" arbitrary: s)
  case Nil
  then show ?case by simp
next
  case (Cons i "is")
  show ?case
  proof (cases "register_values s ! i")
    case None
    with Cons show ?thesis by simp
  next
    case (Some p)
    with Cons.prems(1) obtain s1 where a: "Spill p s = Some s1"
      and b: "SpillRegisters_loop is s1 = Some s'"
      by (auto split: option.splits)
    from Cons.IH[OF b Spill_consistent[OF a Cons.prems(2)]] show ?thesis .
  qed
qed

lemma clear_one_consistent:
  assumes cons: "consistent s" and occ: "register_values s ! i = Some p"
    and info: "values_tbl s p = Some info"
  shows "consistent ((set_info p (info\<lparr>reg := no_reg\<rparr>) s)
                       \<lparr>register_values := (register_values s)[i := None]\<rparr>)"
proof (rule consistentI)
  fix v vinfo j
  assume v: "values_tbl ((set_info p (info\<lparr>reg := no_reg\<rparr>) s)
                \<lparr>register_values := (register_values s)[i := None]\<rparr>) v = Some vinfo"
    "reg vinfo = Reg j"
  then have vp: "v \<noteq> p" by (auto split: if_splits)
  with v have "values_tbl s v = Some vinfo" by simp
  from consistent_reg[OF cons this v(2)] have j: "j < length (register_values s)"
    "register_values s ! j = Some v" by simp_all
  with vp occ have "j \<noteq> i" by auto
  with j show "j < length (register_values ((set_info p (info\<lparr>reg := no_reg\<rparr>) s)
                \<lparr>register_values := (register_values s)[i := None]\<rparr>))
      \<and> register_values ((set_info p (info\<lparr>reg := no_reg\<rparr>) s)
                \<lparr>register_values := (register_values s)[i := None]\<rparr>) ! j = Some v"
    by simp
next
  fix v vinfo
  assume "values_tbl ((set_info p (info\<lparr>reg := no_reg\<rparr>) s)
                \<lparr>register_values := (register_values s)[i := None]\<rparr>) v = Some vinfo"
  with info consistent_node[OF cons] show "node vinfo = v"
    by (cases "v = p") auto
qed

lemma SpillAndClearRegisters_loop_consistent:
  "SpillAndClearRegisters_loop is s = Some s' \<Longrightarrow> consistent s \<Longrightarrow> consistent s'"
proof (induction "is" arbitrary: s)
  case Nil
  then show ?case by simp
next
  case (Cons i "is")
  show ?case
  proof (cases "register_values s ! i")
    case None
    with Cons show ?thesis by simp
  next
    case (Some p)
    with Cons.prems(1) obtain s1 info where a: "Spill p s = Some s1"
      and info: "values_tbl s1 p = Some info"
      and b: "SpillAndClearRegisters_loop is
                ((set_info p (info\<lparr>reg := no_reg\<rparr>) s1)
                   \<lparr>register_values := (register_values s1)[i := None]\<rparr>) = Some s'"
      by (auto split: option.splits)
    from Spill_effect[OF a] Some have occ: "register_values s1 ! i = Some p" by simp
    from Cons.IH[OF b clear_one_consistent[OF Spill_consistent[OF a Cons.prems(2)] occ info]]
    show ?thesis .
  qed
qed

lemma MakeLive_fields [simp]:
  "register_values (MakeLive v s) = register_values s"
  "values_tbl (MakeLive v s) =
     (values_tbl s)(v \<mapsto> \<lparr>node = v, last_use = live_range_end v, next_use = first_use v,
                          stack_slot = None, reg = no_reg\<rparr>)"
  by (simp_all add: MakeLive_def)

lemma SetNoSpillOrHint_fields [simp]:
  "register_values (SetNoSpillOrHint v s) = register_values s"
  "values_tbl (SetNoSpillOrHint v s) = values_tbl s"
  "input_allocated (SetNoSpillOrHint v s) = input_allocated s"
  by (simp_all add: SetNoSpillOrHint_def)

lemma SetAllocated_result_fields [simp]:
  "register_values (SetAllocated_result v operand s) = register_values s"
  "values_tbl (SetAllocated_result v operand s) = values_tbl s"
  by (simp_all add: SetAllocated_result_def)

lemma MakeLive_consistent:
  assumes "consistent s"
  shows "consistent (SetNoSpillOrHint v (MakeLive v s))"
proof (rule consistentI)
  fix w winfo j
  assume w: "values_tbl (SetNoSpillOrHint v (MakeLive v s)) w = Some winfo" "reg winfo = Reg j"
  then have "w \<noteq> v" by (auto split: if_splits)
  with w have "values_tbl s w = Some winfo" by simp
  from consistent_reg[OF assms this w(2)]
  show "j < length (register_values (SetNoSpillOrHint v (MakeLive v s)))
      \<and> register_values (SetNoSpillOrHint v (MakeLive v s)) ! j = Some w" by simp
next
  fix w winfo
  assume "values_tbl (SetNoSpillOrHint v (MakeLive v s)) w = Some winfo"
  with consistent_node[OF assms] show "node winfo = w"
    by (cases "w = v") auto
qed

lemma AllocateNodeResult_register_cases:
  assumes anr: "AllocateNodeResult n s = Some s'"
    and v: "Cast_ValueNode n = Some v"
    and op: "result_policy n = Some (EXTENDED_POLICY policy idx)"
  shows "\<exists>allocated s2 r.
            (ForceAllocate r v default_try_move (SetNoSpillOrHint v (MakeLive v s)) = Some (allocated, s2)
              \<or> AllocateRegister v (SetNoSpillOrHint v (MakeLive v s)) = Some (allocated, s2))
            \<and> s' = SetAllocated_result v allocated s2"
proof -
  from anr v op have body:
    "(case policy of
             FIXED_REGISTER \<Rightarrow> do {
               (allocated, s2) \<leftarrow> ForceAllocate (Reg idx) v default_try_move (SetNoSpillOrHint v (MakeLive v s));
               Some (SetAllocated_result v allocated s2)
             }
           | MUST_HAVE_REGISTER \<Rightarrow> do {
               (allocated, s2) \<leftarrow> AllocateRegister v (SetNoSpillOrHint v (MakeLive v s));
               Some (SetAllocated_result v allocated s2)
             }
           | SAME_AS_INPUT \<Rightarrow> do {
               input_op \<leftarrow> (if idx < length (nd_inputs n)
                            then input_allocated (SetNoSpillOrHint v (MakeLive v s)) (nd_id n, idx) else None);
               r \<leftarrow> AssignedRegister input_op;
               (allocated, s2) \<leftarrow> ForceAllocate r v default_try_move (SetNoSpillOrHint v (MakeLive v s));
               Some (SetAllocated_result v allocated s2)
             }
           | REGISTER_OR_SLOT_OR_CONSTANT \<Rightarrow> None
           | NONE \<Rightarrow> None
           | FIXED_FP_REGISTER \<Rightarrow> None
           | MUST_HAVE_SLOT \<Rightarrow> None
           | REGISTER_OR_SLOT \<Rightarrow> None) = Some s'"
    unfolding AllocateNodeResult_def Let_def by simp
  show ?thesis
  proof (cases policy)
    case FIXED_REGISTER
    with body obtain allocated s2 where
      "ForceAllocate (Reg idx) v default_try_move (SetNoSpillOrHint v (MakeLive v s)) = Some (allocated, s2)"
      "s' = SetAllocated_result v allocated s2"
      by (auto simp: bind_eq_Some_conv)
    then show ?thesis by blast
  next
    case MUST_HAVE_REGISTER
    with body obtain allocated s2 where
      "AllocateRegister v (SetNoSpillOrHint v (MakeLive v s)) = Some (allocated, s2)"
      "s' = SetAllocated_result v allocated s2"
      by (auto simp: bind_eq_Some_conv)
    then show ?thesis by blast
  next
    case SAME_AS_INPUT
    with body obtain allocated s2 r where
      "ForceAllocate r v default_try_move (SetNoSpillOrHint v (MakeLive v s)) = Some (allocated, s2)"
      "s' = SetAllocated_result v allocated s2"
      by (auto simp: bind_eq_Some_conv)
    then show ?thesis by blast
  qed (use body in simp_all)
qed

lemma AllocateNodeResult_consistent:
  assumes anr: "AllocateNodeResult n s = Some s'" and cons: "consistent s"
  shows "consistent s'"
proof -
  from anr obtain v operand where v: "Cast_ValueNode n = Some v"
    and op: "result_policy n = Some operand"
    by (auto simp: AllocateNodeResult_def bind_eq_Some_conv)
  let ?s1 = "SetNoSpillOrHint v (MakeLive v s)"
  have c1: "consistent ?s1" by (rule MakeLive_consistent[OF cons])
  show ?thesis
  proof (cases operand)
    case (FIXED_SLOT i)
    with anr v op obtain info where info: "values_tbl ?s1 v = Some info"
      and s': "s' = SetAllocated_result v (STACK_SLOT i) (set_info v (info\<lparr>stack_slot := Some i\<rparr>) ?s1)"
      by (auto simp: AllocateNodeResult_def bind_eq_Some_conv Let_def)
    show ?thesis
    proof (rule consistentI)
      fix w winfo j
      assume w: "values_tbl s' w = Some winfo" "reg winfo = Reg j"
      with s' info have "w \<noteq> v" by (auto split: if_splits)
      with w s' have "values_tbl ?s1 w = Some winfo" by simp
      from consistent_reg[OF c1 this w(2)] s'
      show "j < length (register_values s') \<and> register_values s' ! j = Some w" by simp
    next
      fix w winfo
      assume w: "values_tbl s' w = Some winfo"
      show "node winfo = w"
      proof (cases "w = v")
        case True
        with w s' have "winfo = info\<lparr>stack_slot := Some i\<rparr>" by simp
        with consistent_node[OF c1 info] True show ?thesis by simp
      next
        case False
        with w s' have "values_tbl ?s1 w = Some winfo" by simp
        from consistent_node[OF c1 this] show ?thesis .
      qed
    qed
  next
    case (EXTENDED_POLICY policy idx)
    from AllocateNodeResult_register_cases[OF anr v op[unfolded EXTENDED_POLICY]]
    obtain allocated s2 r where
      alloc: "ForceAllocate r v default_try_move ?s1 = Some (allocated, s2)
              \<or> AllocateRegister v ?s1 = Some (allocated, s2)"
      and s': "s' = SetAllocated_result v allocated s2"
      by blast
    from alloc have "consistent s2"
    proof
      assume "ForceAllocate r v default_try_move ?s1 = Some (allocated, s2)"
      from ForceAllocate_consistent[OF this c1] show ?thesis .
    next
      assume "AllocateRegister v ?s1 = Some (allocated, s2)"
      from AllocateRegister_consistent[OF this c1] show ?thesis .
    qed
    with s' consistent_cong[of s' s2] show ?thesis by simp
  qed
qed

lemma SpillRegisters_consistent:
  "SpillRegisters s = Some s' \<Longrightarrow> consistent s \<Longrightarrow> consistent s'"
  unfolding SpillRegisters_def by (rule SpillRegisters_loop_consistent)

lemma SpillAndClearRegisters_consistent:
  "SpillAndClearRegisters s = Some s' \<Longrightarrow> consistent s \<Longrightarrow> consistent s'"
  unfolding SpillAndClearRegisters_def by (rule SpillAndClearRegisters_loop_consistent)

lemma AllocateNode_preserves_consistent:
  assumes an: "AllocateNode n s = Some s'" and cons: "consistent s"
  shows "consistent s'"
proof -
  from an obtain s1 s2 s3 s4 s5 s6 where
    1: "AssignInputs (nd_id n) 0 (nd_inputs n) s = Some s1" and
    2: "AssignTemporaries n s1 = Some s2" and
    3: "UpdateInputs (nd_id n) (nd_inputs n) s2 = Some s3" and
    4: "(if is_call n then SpillAndClearRegisters s3 else Some s3) = Some s4" and
    5: "(if can_deopt n then SpillRegisters s4 else Some s4) = Some s5" and
    6: "(if Is_ValueNode n then AllocateNodeResult n s5 else Some s5) = Some s6" and
    7: "s' = (if trace_regalloc s6
           then trace (PrintLiveRegs s6) (trace (TraceProcess (nd_id n)) s6)
           else s6)"
    by (auto simp: AllocateNode_def bind_eq_Some_conv)
  have c3: "consistent s3"
    using UpdateInputs_consistent[OF 3 AssignTemporaries_consistent[OF 2
            AssignInputs_consistent[OF 1 cons]]] .
  have c4: "consistent s4"
    using 4 c3 SpillAndClearRegisters_consistent by (auto split: if_splits)
  have c5: "consistent s5"
    using 5 c4 SpillRegisters_consistent by (auto split: if_splits)
  have c6: "consistent s6"
    using 6 c5 AllocateNodeResult_consistent by (auto split: if_splits)
  with 7 consistent_cong[of s' s6] show ?thesis by simp
qed

subsection \<open>Eviction by \<^verbatim>\<open>AllocateRegister\<close>\<close>

lemma furthest_loop_step:
  assumes "occupied s f" "occupied s i"
  shows "furthest_loop s (i # rest) f =
           furthest_loop s rest (if next_use_at s f < next_use_at s i then i else f)"
  using assms by (auto simp: occupied_def next_use_at_def)

lemma furthest_loop_max:
  assumes "\<forall>i \<in> set (f # is). occupied s i" and "sorted (f # is)" and "distinct (f # is)"
  shows "\<exists>k. furthest_loop s is f = Some k \<and> k \<in> set (f # is)
           \<and> (\<forall>j \<in> set (f # is). next_use_at s j \<le> next_use_at s k)
           \<and> (\<forall>j \<in> set (f # is). j < k \<longrightarrow> next_use_at s j < next_use_at s k)"
  using assms
proof (induction "is" arbitrary: f)
  case Nil
  then show ?case by simp
next
  case (Cons i rest)
  let ?f' = "if next_use_at s f < next_use_at s i then i else f"
  have step: "furthest_loop s (i # rest) f = furthest_loop s rest ?f'"
    using Cons.prems(1) by (intro furthest_loop_step) simp_all
  have p1: "\<forall>j \<in> set (?f' # rest). occupied s j" using Cons.prems(1) by auto
  have p2: "sorted (?f' # rest)" using Cons.prems(2) by auto
  have p3: "distinct (?f' # rest)" using Cons.prems(3) by auto
  from Cons.IH[OF p1 p2 p3] obtain k where
    k: "furthest_loop s rest ?f' = Some k" "k \<in> set (?f' # rest)"
    and mx: "\<forall>j \<in> set (?f' # rest). next_use_at s j \<le> next_use_at s k"
    and st: "\<forall>j \<in> set (?f' # rest). j < k \<longrightarrow> next_use_at s j < next_use_at s k"
    by blast
  have fi: "f < i" using Cons.prems(2,3) by (auto simp: le_less)
  have irest: "\<forall>j \<in> set rest. i < j" using Cons.prems(2,3) by (auto simp: le_less)
  show ?case
  proof (cases "next_use_at s f < next_use_at s i")
    case True
    then have f': "?f' = i" by simp
    from mx f' have ik: "next_use_at s i \<le> next_use_at s k" by simp
    have "k \<in> set (f # i # rest)" using k(2) f' by auto
    moreover have "\<forall>j \<in> set (f # i # rest). next_use_at s j \<le> next_use_at s k"
      using mx f' True ik by auto
    moreover have "\<forall>j \<in> set (f # i # rest). j < k \<longrightarrow> next_use_at s j < next_use_at s k"
      using st f' True ik by auto
    ultimately show ?thesis using step k(1) by simp
  next
    case False
    then have f': "?f' = f" by simp
    from mx f' have fk: "next_use_at s f \<le> next_use_at s k" by simp
    have kin: "k \<in> set (f # i # rest)" using k(2) f' by auto
    have mx': "\<forall>j \<in> set (f # i # rest). next_use_at s j \<le> next_use_at s k"
      using mx f' False fk by auto
    have "next_use_at s i < next_use_at s k" if "i < k"
    proof -
      from that fi have "f < k" by simp
      with st f' have "next_use_at s f < next_use_at s k" by simp
      with False show ?thesis by simp
    qed
    then have st': "\<forall>j \<in> set (f # i # rest). j < k \<longrightarrow> next_use_at s j < next_use_at s k"
      using st f' by auto
    from kin mx' st' show ?thesis using step k(1) by simp
  qed
qed

text \<open>
  Claim C5, as stated, fails when the register with the farthest next use holds the new value
  itself. After the run \<open>evicted_copy_run\<close> the file is full and the next uses are equal, so
  register 0 is the one to take, and its occupant is the value of node 1, whose record names
  no register.
  \<^verbatim>\<open>AllocateRegister\<close> for that value returns register 0, evicts nothing and leaves the
  register field of the value unset.
\<close>

theorem occupant_is_new_value_counterexample:
  "map_option register_values evicted_copy_run
     = Some [Some (value_node 1 6), Some (value_node 3 6), Some (value_node 4 6), Some (value_node 5 6)]
   \<and> map_option next_use (evicted_copy_run \<bind> info_of (value_node 1 6)) = Some 6
   \<and> map_option next_use (evicted_copy_run \<bind> info_of (value_node 3 6)) = Some 6
   \<and> map_option next_use (evicted_copy_run \<bind> info_of (value_node 4 6)) = Some 6
   \<and> map_option next_use (evicted_copy_run \<bind> info_of (value_node 5 6)) = Some 6
   \<and> map_option reg (evicted_copy_run \<bind> info_of (value_node 1 6)) = Some no_reg
   \<and> map_option fst (evicted_copy_run \<bind> AllocateRegister (value_node 1 6)) = Some (REGISTER 0)
   \<and> map_option (register_values \<circ> snd) (evicted_copy_run \<bind> AllocateRegister (value_node 1 6))
       = Some [Some (value_node 1 6), Some (value_node 3 6), Some (value_node 4 6), Some (value_node 5 6)]
   \<and> map_option reg
       (evicted_copy_run \<bind> AllocateRegister (value_node 1 6) \<bind> (info_of (value_node 1 6) \<circ> snd))
       = Some no_reg"
  unfolding evicted_copy_run_def by code_simp

text \<open>
  Claim C5, amended. When \<^verbatim>\<open>AllocateRegister\<close> is called while every register holds a
  record, the register \<open>k\<close> it returns has the maximal next use among all registers and is
  the lowest register with that next use. If the occupant of \<open>k\<close> is the new value itself,
  nothing is evicted and the state is unchanged. Otherwise the occupant is evicted:
  afterwards register \<open>k\<close> holds the new value, whose register field is \<open>k\<close>, and the other
  registers are as before; the evicted occupant no longer names register \<open>k\<close>, and if it
  did, it now has a stack slot or names another register that holds it.
\<close>

theorem AllocateRegister_evicts_farthest:
  assumes full: "\<forall>i < length (register_values s). occupied s i"
    and nonempty: "0 < length (register_values s)"
    and new: "values_tbl s p = Some pinfo"
  shows "\<exists>k s'. AllocateRegister p s = Some (REGISTER k, s')
           \<and> k < length (register_values s)
           \<and> (\<forall>j < length (register_values s). next_use_at s j \<le> next_use_at s k)
           \<and> (\<forall>j < k. next_use_at s j < next_use_at s k)
           \<and> (register_values s ! k = Some p \<longrightarrow> s' = s)
           \<and> (register_values s ! k \<noteq> Some p \<longrightarrow>
                 register_values s' = (register_values s)[k := Some p]
                 \<and> values_tbl s' p = Some (pinfo\<lparr>reg := Reg k\<rparr>)
                 \<and> (\<forall>q info. register_values s ! k = Some q \<longrightarrow> values_tbl s q = Some info \<longrightarrow>
                       (\<exists>info'. values_tbl s' q = Some info' \<and> reg info' \<noteq> Reg k
                          \<and> (reg info = Reg k \<longrightarrow> stack_slot info' \<noteq> None
                                \<or> (\<exists>i. i \<noteq> k \<and> reg info' = Reg i \<and> register_values s' ! i = Some q)))))"
proof -
  let ?N = "length (register_values s)"
  have noempty: "None \<notin> set (register_values s)"
  proof
    assume "None \<in> set (register_values s)"
    then obtain i where "i < ?N" "register_values s ! i = None" by (auto simp: in_set_conv_nth)
    with full show False by (auto simp: occupied_def)
  qed
  then have "first_empty (register_values s) 0 = None"
    by (simp add: first_empty_None)
  then have tryalloc: "TryAllocateRegister p s = Some (None, s)"
    by (simp add: TryAllocateRegister_def)
  have upt: "[0..<?N] = 0 # [1..<?N]" using nonempty by (simp add: upt_conv_Cons)
  have "\<forall>i \<in> set (0 # [1..<?N]). occupied s i" using full nonempty by auto
  moreover have "sorted (0 # [1..<?N])" "distinct (0 # [1..<?N])" by simp_all
  ultimately obtain k where
    k: "furthest_loop s [1..<?N] 0 = Some k" "k \<in> set (0 # [1..<?N])"
    and mx: "\<forall>j \<in> set (0 # [1..<?N]). next_use_at s j \<le> next_use_at s k"
    and st: "\<forall>j \<in> set (0 # [1..<?N]). j < k \<longrightarrow> next_use_at s j < next_use_at s k"
    using furthest_loop_max[of 0 "[1..<?N]" s] by blast
  have "set (0 # [1..<?N]) = set [0..<?N]" using upt by simp
  then have memb: "j \<in> set (0 # [1..<?N]) \<longleftrightarrow> j < ?N" for j
    by (simp del: set_simps set_upt add: set_upt[of 0 ?N])
  from k(2) have kN: "k < ?N" by (simp only: memb)
  have mx': "\<forall>j < ?N. next_use_at s j \<le> next_use_at s k"
  proof (intro allI impI)
    fix j assume "j < ?N"
    then have "j \<in> set (0 # [1..<?N])" by (simp only: memb)
    with mx show "next_use_at s j \<le> next_use_at s k" by blast
  qed
  have st': "\<forall>j < k. next_use_at s j < next_use_at s k"
  proof (intro allI impI)
    fix j assume jk: "j < k"
    with kN have "j < ?N" by simp
    then have "j \<in> set (0 # [1..<?N])" by (simp only: memb)
    with st jk show "next_use_at s j < next_use_at s k" by blast
  qed
  from full kN obtain q qinfo where q: "register_values s ! k = Some q" "values_tbl s q = Some qinfo"
    by (auto simp: occupied_def)
  show ?thesis
  proof (cases "q = p")
    case True
    with q kN have "ForceAllocate (Reg k) p False s = Some (REGISTER k, s)"
      by (simp add: ForceAllocate_def kAllocatableGeneralRegisterCount_def)
    with tryalloc k(1) kN have "AllocateRegister p s = Some (REGISTER k, s)"
      by (simp add: AllocateRegister_def kAllocatableGeneralRegisterCount_def MapIndexToRegister_def)
    with kN mx' st' q True show ?thesis by (intro exI[of _ k] exI[of _ s]) simp
  next
    case qp: False
    have "\<And>p'. register_values s ! k = Some p' \<Longrightarrow> values_tbl s p' \<noteq> None" using q by simp
    from Free_False_total[OF kN this] obtain s1 where free: "Free (Reg k) False s = Some s1"
      by blast
    have rv1: "register_values s1 = (register_values s)[k := None]" by (rule Free_False_rv[OF free])
    have p1: "values_tbl s1 p = Some pinfo"
      using Free_other_values[OF free, of p] q qp new by simp
    define s' where "s' = set_info p (pinfo\<lparr>reg := Reg k\<rparr>)
                            (s1\<lparr>register_values := (register_values s1)[k := Some p]\<rparr>)"
    have setreg: "SetRegister (Reg k) p s1 = Some s'"
      using kN rv1 p1 by (simp add: SetRegister_def kAllocatableGeneralRegisterCount_def s'_def)
    have force: "ForceAllocate (Reg k) p False s = Some (REGISTER k, s')"
      using kN q qp free setreg
      by (simp add: ForceAllocate_def kAllocatableGeneralRegisterCount_def DoAllocate_def)
    have alloc: "AllocateRegister p s = Some (REGISTER k, s')"
      using tryalloc k(1) kN force
      by (simp add: AllocateRegister_def kAllocatableGeneralRegisterCount_def MapIndexToRegister_def)
    have rv': "register_values s' = (register_values s)[k := Some p]"
      by (simp add: s'_def rv1)
    have tbl': "values_tbl s' = (values_tbl s1)(p \<mapsto> pinfo\<lparr>reg := Reg k\<rparr>)"
      by (simp add: s'_def)
    have evicted: "\<exists>info'. values_tbl s1 q = Some info' \<and> reg info' \<noteq> Reg k
                      \<and> (reg qinfo = Reg k \<longrightarrow> stack_slot info' \<noteq> None
                            \<or> (\<exists>i. i \<noteq> k \<and> reg info' = Reg i \<and> register_values s ! i = Some q))"
      using free
    proof (cases rule: Free_cases)
      case (empty k')
      with q show ?thesis by simp
    next
      case (elsewhere k' p' info)
      with q show ?thesis by auto
    next
      case (spilled k' p' info)
      with q show ?thesis by auto
    next
      case (existing k' p' info i q' qinfo')
      then show ?thesis by simp
    next
      case (moved k' p' info i)
      then show ?thesis by simp
    next
      case (holding k' p' info i)
      with q show ?thesis by auto
    next
      case (spill k' p' info slot)
      with q show ?thesis by auto
    qed
    have ev': "\<forall>q' info. register_values s ! k = Some q' \<longrightarrow> values_tbl s q' = Some info \<longrightarrow>
                   (\<exists>info'. values_tbl s' q' = Some info' \<and> reg info' \<noteq> Reg k
                      \<and> (reg info = Reg k \<longrightarrow> stack_slot info' \<noteq> None
                            \<or> (\<exists>i. i \<noteq> k \<and> reg info' = Reg i \<and> register_values s' ! i = Some q')))"
    proof (intro allI impI)
      fix q' info
      assume a: "register_values s ! k = Some q'" "values_tbl s q' = Some info"
      with q have e: "q' = q" "info = qinfo" by simp_all
      from evicted obtain info' where i': "values_tbl s1 q = Some info'" "reg info' \<noteq> Reg k"
        "reg qinfo = Reg k \<longrightarrow> stack_slot info' \<noteq> None
            \<or> (\<exists>i. i \<noteq> k \<and> reg info' = Reg i \<and> register_values s ! i = Some q)" by blast
      have "values_tbl s' q = Some info'" using tbl' qp i'(1) by simp
      moreover have "reg qinfo = Reg k \<longrightarrow> stack_slot info' \<noteq> None
            \<or> (\<exists>i. i \<noteq> k \<and> reg info' = Reg i \<and> register_values s' ! i = Some q)"
        using i'(3) rv' by auto
      ultimately show "\<exists>info'. values_tbl s' q' = Some info' \<and> reg info' \<noteq> Reg k
                      \<and> (reg info = Reg k \<longrightarrow> stack_slot info' \<noteq> None
                            \<or> (\<exists>i. i \<noteq> k \<and> reg info' = Reg i \<and> register_values s' ! i = Some q'))"
        using i'(2) e by blast
    qed
    from q qp have "register_values s ! k \<noteq> Some p" by simp
    with alloc kN mx' st' rv' tbl' ev' show ?thesis
      by (intro exI[of _ k] exI[of _ s']) simp
  qed
qed

lemma all_less_four: "(\<forall>i<(4::nat). P i) = (P 0 \<and> P 1 \<and> P 2 \<and> P 3)"
proof -
  have "i < 4 \<longleftrightarrow> i = 0 \<or> i = 1 \<or> i = 2 \<or> i = 3" for i :: nat by auto
  then show ?thesis by auto
qed

theorem AllocateRegister_evicts_farthest_witness:
  "(\<exists>s'. AllocateRegister (value_node 5 8) full_file = Some (REGISTER 1, s')
       \<and> register_values s' = [Some (value_node 1 6), Some (value_node 5 8),
                                Some (value_node 3 9), Some (value_node 4 7)])
   \<and> (\<exists>s. evicted_copy_run = Some s \<and> AllocateRegister (value_node 1 6) s = Some (REGISTER 0, s))"
proof -
  have len: "length (register_values full_file) = 4"
    by (simp add: full_file_def initial_allocator_def)
  have "occupied full_file 0" "occupied full_file 1" "occupied full_file 2" "occupied full_file 3"
    by (simp_all add: full_file_def initial_allocator_def occupied_def value_node_def)
  then have h1: "\<forall>i < length (register_values full_file). occupied full_file i"
    unfolding len all_less_four by simp
  have h2: "0 < length (register_values full_file)"
    by (simp add: full_file_def initial_allocator_def)
  have h3: "values_tbl full_file (value_node 5 8) = Some ((resident_info (value_node 5 8) None 0)\<lparr>reg := no_reg\<rparr>)"
    by (simp add: full_file_def initial_allocator_def value_node_def)
  have nu: "next_use_at full_file 0 = 6" "next_use_at full_file 1 = 9"
    "next_use_at full_file 2 = 9" "next_use_at full_file 3 = 7"
    by (simp_all add: next_use_at_def full_file_def initial_allocator_def value_node_def
                      resident_info_def)
  from AllocateRegister_evicts_farthest[OF h1 h2 h3] obtain k s' where
    r: "AllocateRegister (value_node 5 8) full_file = Some (REGISTER k, s')"
       "k < length (register_values full_file)"
       "\<forall>j < length (register_values full_file). next_use_at full_file j \<le> next_use_at full_file k"
       "\<forall>j < k. next_use_at full_file j < next_use_at full_file k"
       "register_values full_file ! k \<noteq> Some (value_node 5 8) \<longrightarrow>
          register_values s' = (register_values full_file)[k := Some (value_node 5 8)]"
    by blast
  from r(2) len have "k = 0 \<or> k = 1 \<or> k = 2 \<or> k = 3" by auto
  moreover from r(3) len have top: "next_use_at full_file 1 \<le> next_use_at full_file k" by simp
  have "k \<noteq> 0"
  proof
    assume "k = 0" with top nu show False by simp
  qed
  moreover have "k \<noteq> 3"
  proof
    assume "k = 3" with top nu show False by simp
  qed
  moreover have "k \<noteq> 2"
  proof
    assume "k = 2"
    with r(4) have "next_use_at full_file 1 < next_use_at full_file 2" by simp
    with nu show False by simp
  qed
  ultimately have k1: "k = 1" by simp
  have "register_values full_file ! 1 \<noteq> Some (value_node 5 8)"
    by (simp add: full_file_def initial_allocator_def value_node_def)
  with k1 r(1,5) have first: "\<exists>s'. AllocateRegister (value_node 5 8) full_file = Some (REGISTER 1, s')
       \<and> register_values s' = [Some (value_node 1 6), Some (value_node 5 8),
                                Some (value_node 3 9), Some (value_node 4 7)]"
    by (simp add: full_file_def initial_allocator_def)
  have "case evicted_copy_run of
          None \<Rightarrow> False
        | Some s \<Rightarrow>
            register_values s = [Some (value_node 1 6), Some (value_node 3 6),
                                 Some (value_node 4 6), Some (value_node 5 6)]
            \<and> map_option next_use (values_tbl s (value_node 1 6)) = Some 6
            \<and> map_option next_use (values_tbl s (value_node 3 6)) = Some 6
            \<and> map_option next_use (values_tbl s (value_node 4 6)) = Some 6
            \<and> map_option next_use (values_tbl s (value_node 5 6)) = Some 6"
    unfolding evicted_copy_run_def by code_simp
  then obtain s where run: "evicted_copy_run = Some s"
    and rv: "register_values s = [Some (value_node 1 6), Some (value_node 3 6),
                                  Some (value_node 4 6), Some (value_node 5 6)]"
    and tbl: "map_option next_use (values_tbl s (value_node 1 6)) = Some 6"
             "map_option next_use (values_tbl s (value_node 3 6)) = Some 6"
             "map_option next_use (values_tbl s (value_node 4 6)) = Some 6"
             "map_option next_use (values_tbl s (value_node 5 6)) = Some 6"
    by (auto split: option.splits)
  from tbl obtain i1 i3 i4 i5 where infos:
    "values_tbl s (value_node 1 6) = Some i1" "next_use i1 = 6"
    "values_tbl s (value_node 3 6) = Some i3" "next_use i3 = 6"
    "values_tbl s (value_node 4 6) = Some i4" "next_use i4 = 6"
    "values_tbl s (value_node 5 6) = Some i5" "next_use i5 = 6"
    by auto
  have len': "length (register_values s) = 4" using rv by simp
  have "occupied s 0" "occupied s 1" "occupied s 2" "occupied s 3"
    using rv infos by (simp_all add: occupied_def)
  then have g1: "\<forall>i < length (register_values s). occupied s i"
    unfolding len' all_less_four by simp
  have g2: "0 < length (register_values s)" using len' by simp
  have nu0: "next_use_at s 0 = 6" using rv infos by (simp add: next_use_at_def)
  from AllocateRegister_evicts_farthest[OF g1 g2 infos(1)] obtain k' s'' where
    r': "AllocateRegister (value_node 1 6) s = Some (REGISTER k', s'')"
        "k' < length (register_values s)"
        "\<forall>j < length (register_values s). next_use_at s j \<le> next_use_at s k'"
        "\<forall>j < k'. next_use_at s j < next_use_at s k'"
        "register_values s ! k' = Some (value_node 1 6) \<longrightarrow> s'' = s"
    by blast
  have k0: "k' = 0"
  proof (rule ccontr)
    assume "k' \<noteq> 0"
    then have "0 < k'" by simp
    with r'(4) have lt: "next_use_at s 0 < next_use_at s k'" by simp
    from r'(2) len' have "k' = 0 \<or> k' = 1 \<or> k' = 2 \<or> k' = 3" by auto
    then have "next_use_at s k' = 6"
      using rv infos by (auto simp: next_use_at_def)
    with lt nu0 show False by simp
  qed
  with r'(1,5) rv have "AllocateRegister (value_node 1 6) s = Some (REGISTER 0, s)" by simp
  with run first show ?thesis by blast
qed

subsection \<open>Calls and deoptimization points\<close>

lemma AllocateNode_steps:
  assumes "AllocateNode n s = Some s'"
  obtains s3 s4 s5 s6 where
    "state_at_side_effects n s = Some s3"
    "(if is_call n then SpillAndClearRegisters s3 else Some s3) = Some s4"
    "(if can_deopt n then SpillRegisters s4 else Some s4) = Some s5"
    "(if Is_ValueNode n then AllocateNodeResult n s5 else Some s5) = Some s6"
    "register_values s' = register_values s6" "values_tbl s' = values_tbl s6"
proof -
  from assms obtain s1 s2 s3 s4 s5 s6 where
    1: "AssignInputs (nd_id n) 0 (nd_inputs n) s = Some s1" and
    2: "AssignTemporaries n s1 = Some s2" and
    3: "UpdateInputs (nd_id n) (nd_inputs n) s2 = Some s3" and
    4: "(if is_call n then SpillAndClearRegisters s3 else Some s3) = Some s4" and
    5: "(if can_deopt n then SpillRegisters s4 else Some s4) = Some s5" and
    6: "(if Is_ValueNode n then AllocateNodeResult n s5 else Some s5) = Some s6" and
    7: "s' = (if trace_regalloc s6
           then trace (PrintLiveRegs s6) (trace (TraceProcess (nd_id n)) s6)
           else s6)"
    by (auto simp: AllocateNode_def bind_eq_Some_conv)
  from 1 2 3 have "state_at_side_effects n s = Some s3"
    by (simp add: state_at_side_effects_def)
  moreover from 7 have "register_values s' = register_values s6" "values_tbl s' = values_tbl s6"
    by simp_all
  ultimately show thesis using 4 5 6 that by blast
qed

lemma Spill_keeps:
  assumes "Spill p s = Some s'" and "values_tbl s q = Some info"
  shows "\<exists>info'. values_tbl s' q = Some info' \<and> reg info' = reg info \<and> node info' = node info
           \<and> (stack_slot info \<noteq> None \<longrightarrow> stack_slot info' = stack_slot info)"
proof -
  from Spill_effect[OF assms(1)] obtain pinfo where
    p: "values_tbl s p = Some pinfo" and
    eff: "if stack_slot pinfo \<noteq> None then values_tbl s' = values_tbl s
          else \<exists>i. values_tbl s' = (values_tbl s)(p \<mapsto> pinfo\<lparr>stack_slot := Some i\<rparr>)"
    by blast
  show ?thesis
  proof (cases "stack_slot pinfo")
    case (Some a)
    with eff assms(2) show ?thesis by simp
  next
    case None
    with eff obtain i where tbl: "values_tbl s' = (values_tbl s)(p \<mapsto> pinfo\<lparr>stack_slot := Some i\<rparr>)"
      by auto
    show ?thesis
    proof (cases "q = p")
      case True
      with tbl p assms(2) None show ?thesis by simp
    next
      case False
      with tbl assms(2) show ?thesis by simp
    qed
  qed
qed

lemma Spill_rv: "Spill p s = Some s' \<Longrightarrow> register_values s' = register_values s"
  using Spill_effect by blast

lemma SpillRegisters_loop_rv:
  "SpillRegisters_loop is s = Some s' \<Longrightarrow> register_values s' = register_values s"
proof (induction "is" arbitrary: s)
  case Nil
  then show ?case by simp
next
  case (Cons i "is")
  show ?case
  proof (cases "register_values s ! i")
    case None
    with Cons show ?thesis by simp
  next
    case (Some p)
    with Cons.prems obtain s1 where a: "Spill p s = Some s1"
      and b: "SpillRegisters_loop is s1 = Some s'"
      by (auto split: option.splits)
    from Cons.IH[OF b] Spill_rv[OF a] show ?thesis by simp
  qed
qed

lemma SpillRegisters_loop_keeps:
  "SpillRegisters_loop is s = Some s' \<Longrightarrow> values_tbl s q = Some info \<Longrightarrow>
     \<exists>info'. values_tbl s' q = Some info' \<and> reg info' = reg info \<and> node info' = node info
           \<and> (stack_slot info \<noteq> None \<longrightarrow> stack_slot info' = stack_slot info)"
proof (induction "is" arbitrary: s info)
  case Nil
  then show ?case by simp
next
  case (Cons i "is")
  show ?case
  proof (cases "register_values s ! i")
    case None
    with Cons.prems have "SpillRegisters_loop is s = Some s'" by simp
    from Cons.IH[OF this Cons.prems(2)] show ?thesis .
  next
    case (Some p)
    with Cons.prems obtain s1 where a: "Spill p s = Some s1"
      and b: "SpillRegisters_loop is s1 = Some s'"
      by (auto split: option.splits)
    from Spill_keeps[OF a Cons.prems(2)] obtain info1 where
      i1: "values_tbl s1 q = Some info1" "reg info1 = reg info" "node info1 = node info"
          "stack_slot info \<noteq> None \<longrightarrow> stack_slot info1 = stack_slot info" by blast
    from Cons.IH[OF b i1(1)] obtain info' where
      "values_tbl s' q = Some info'" "reg info' = reg info1" "node info' = node info1"
      "stack_slot info1 \<noteq> None \<longrightarrow> stack_slot info' = stack_slot info1" by blast
    with i1 show ?thesis by auto
  qed
qed

lemma SpillRegisters_loop_spilled:
  "SpillRegisters_loop is s = Some s' \<Longrightarrow> i \<in> set is \<Longrightarrow> register_values s ! i = Some q \<Longrightarrow>
     \<exists>info. values_tbl s' q = Some info \<and> stack_slot info \<noteq> None"
proof (induction "is" arbitrary: s)
  case Nil
  then show ?case by simp
next
  case (Cons j "is")
  show ?case
  proof (cases "register_values s ! j")
    case None
    with Cons.prems have rest: "SpillRegisters_loop is s = Some s'" by simp
    from None Cons.prems(2,3) have "i \<in> set is" by auto
    from Cons.IH[OF rest this Cons.prems(3)] show ?thesis .
  next
    case (Some p)
    with Cons.prems obtain s1 where a: "Spill p s = Some s1"
      and b: "SpillRegisters_loop is s1 = Some s'"
      by (auto split: option.splits)
    show ?thesis
    proof (cases "i = j")
      case True
      with Some Cons.prems(3) have "p = q" by simp
      with Spill_has_slot[OF a] obtain info1 where
        i1: "values_tbl s1 q = Some info1" "stack_slot info1 \<noteq> None" by blast
      from SpillRegisters_loop_keeps[OF b i1(1)] i1(2) show ?thesis by auto
    next
      case False
      with Cons.prems(2) have "i \<in> set is" by simp
      moreover from Spill_rv[OF a] Cons.prems(3) have "register_values s1 ! i = Some q" by simp
      ultimately show ?thesis using Cons.IH[OF b] by blast
    qed
  qed
qed

lemma SpillRegisters_loop_empty:
  "\<forall>i \<in> set is. register_values s ! i = None \<Longrightarrow> SpillRegisters_loop is s = Some s"
  by (induction "is") auto

lemma SpillAndClear_loop_props:
  "SpillAndClearRegisters_loop is s = Some s' \<Longrightarrow>
     length (register_values s') = length (register_values s)
     \<and> (\<forall>i. i \<in> set is \<longrightarrow> i < length (register_values s) \<longrightarrow> register_values s' ! i = None)
     \<and> (\<forall>i. register_values s ! i = None \<longrightarrow> i < length (register_values s) \<longrightarrow> register_values s' ! i = None)
     \<and> (\<forall>q info. values_tbl s q = Some info \<longrightarrow>
            (\<exists>info'. values_tbl s' q = Some info'
               \<and> (stack_slot info \<noteq> None \<longrightarrow> stack_slot info' \<noteq> None)
               \<and> (reg info = no_reg \<longrightarrow> reg info' = no_reg)))
     \<and> (\<forall>i q. i \<in> set is \<longrightarrow> register_values s ! i = Some q \<longrightarrow>
            (\<exists>info'. values_tbl s' q = Some info' \<and> stack_slot info' \<noteq> None \<and> reg info' = no_reg))"
proof (induction "is" arbitrary: s)
  case Nil
  then show ?case by simp
next
  case (Cons j "is")
  show ?case
  proof (cases "register_values s ! j")
    case None
    with Cons.prems have rest: "SpillAndClearRegisters_loop is s = Some s'" by simp
    from Cons.IH[OF rest] None show ?thesis by auto
  next
    case (Some p)
    with Cons.prems obtain s1 pinfo where a: "Spill p s = Some s1"
      and pi: "values_tbl s1 p = Some pinfo"
      and b: "SpillAndClearRegisters_loop is
                ((set_info p (pinfo\<lparr>reg := no_reg\<rparr>) s1)
                   \<lparr>register_values := (register_values s1)[j := None]\<rparr>) = Some s'"
      by (auto split: option.splits)
    let ?s2 = "(set_info p (pinfo\<lparr>reg := no_reg\<rparr>) s1)\<lparr>register_values := (register_values s1)[j := None]\<rparr>"
    have rv1: "register_values s1 = register_values s" by (rule Spill_rv[OF a])
    have rv2: "register_values ?s2 = (register_values s)[j := None]" by (simp add: rv1)
    have tbl2: "values_tbl ?s2 = (values_tbl s1)(p \<mapsto> pinfo\<lparr>reg := no_reg\<rparr>)" by simp
    from Spill_has_slot[OF a] pi have pslot: "stack_slot pinfo \<noteq> None" by auto
    note IH = Cons.IH[OF b, unfolded rv2 tbl2]
    have keep2: "\<exists>info2. ((values_tbl s1)(p \<mapsto> pinfo\<lparr>reg := no_reg\<rparr>)) q = Some info2
               \<and> (stack_slot info \<noteq> None \<longrightarrow> stack_slot info2 \<noteq> None)
               \<and> (reg info = no_reg \<longrightarrow> reg info2 = no_reg)
               \<and> (q = p \<longrightarrow> stack_slot info2 \<noteq> None \<and> reg info2 = no_reg)"
      if "values_tbl s q = Some info" for q info
    proof (cases "q = p")
      case True
      with pslot show ?thesis by simp
    next
      case False
      with Spill_keeps[OF a that] show ?thesis by auto
    qed
    have c1: "length (register_values s') = length (register_values s)" using IH by simp
    have c2: "\<forall>i. i \<in> set (j # is) \<longrightarrow> i < length (register_values s) \<longrightarrow> register_values s' ! i = None"
    proof (intro allI impI)
      fix i assume i: "i \<in> set (j # is)" "i < length (register_values s)"
      show "register_values s' ! i = None"
      proof (cases "i = j")
        case True
        with i have "(register_values s)[j := None] ! i = None" by simp
        with IH i show ?thesis by simp
      next
        case False
        with i have "i \<in> set is" by simp
        with IH i show ?thesis by simp
      qed
    qed
    have c3: "\<forall>i. register_values s ! i = None \<longrightarrow> i < length (register_values s) \<longrightarrow> register_values s' ! i = None"
    proof (intro allI impI)
      fix i assume i: "register_values s ! i = None" "i < length (register_values s)"
      then have "(register_values s)[j := None] ! i = None" by (cases "i = j") simp_all
      with IH i show "register_values s' ! i = None" by simp
    qed
    have c4: "\<forall>q info. values_tbl s q = Some info \<longrightarrow>
            (\<exists>info'. values_tbl s' q = Some info'
               \<and> (stack_slot info \<noteq> None \<longrightarrow> stack_slot info' \<noteq> None)
               \<and> (reg info = no_reg \<longrightarrow> reg info' = no_reg))"
    proof (intro allI impI)
      fix q info assume q: "values_tbl s q = Some info"
      from keep2[OF q] obtain info2 where
        i2: "((values_tbl s1)(p \<mapsto> pinfo\<lparr>reg := no_reg\<rparr>)) q = Some info2"
          "stack_slot info \<noteq> None \<longrightarrow> stack_slot info2 \<noteq> None"
          "reg info = no_reg \<longrightarrow> reg info2 = no_reg" by blast
      from IH i2(1) obtain info' where "values_tbl s' q = Some info'"
        "stack_slot info2 \<noteq> None \<longrightarrow> stack_slot info' \<noteq> None"
        "reg info2 = no_reg \<longrightarrow> reg info' = no_reg" by blast
      with i2 show "\<exists>info'. values_tbl s' q = Some info'
               \<and> (stack_slot info \<noteq> None \<longrightarrow> stack_slot info' \<noteq> None)
               \<and> (reg info = no_reg \<longrightarrow> reg info' = no_reg)" by blast
    qed
    have c5: "\<forall>i q. i \<in> set (j # is) \<longrightarrow> register_values s ! i = Some q \<longrightarrow>
            (\<exists>info'. values_tbl s' q = Some info' \<and> stack_slot info' \<noteq> None \<and> reg info' = no_reg)"
    proof (intro allI impI)
      fix i q assume i: "i \<in> set (j # is)" "register_values s ! i = Some q"
      show "\<exists>info'. values_tbl s' q = Some info' \<and> stack_slot info' \<noteq> None \<and> reg info' = no_reg"
      proof (cases "q = p")
        case True
        from Spill_effect[OF a] obtain info where "values_tbl s p = Some info" by blast
        from keep2[OF this] obtain info2 where
          i2: "((values_tbl s1)(p \<mapsto> pinfo\<lparr>reg := no_reg\<rparr>)) p = Some info2"
            "stack_slot info2 \<noteq> None" "reg info2 = no_reg" by blast
        from IH i2(1) obtain info' where "values_tbl s' p = Some info'"
          "stack_slot info2 \<noteq> None \<longrightarrow> stack_slot info' \<noteq> None"
          "reg info2 = no_reg \<longrightarrow> reg info' = no_reg" by blast
        with i2 True show ?thesis by blast
      next
        case False
        with i Some have ij: "i \<noteq> j" by auto
        with i have "i \<in> set is" "(register_values s)[j := None] ! i = Some q"
          by simp_all
        with IH show ?thesis by blast
      qed
    qed
    from c1 c2 c3 c4 c5 show ?thesis by blast
  qed
qed

lemma SetRegister_other:
  "SetRegister r p s = Some s' \<Longrightarrow> q \<noteq> p \<Longrightarrow> values_tbl s' q = values_tbl s q"
  using SetRegister_effect[of r p s s'] by auto

lemma ForceAllocate_on_empty:
  assumes fa: "ForceAllocate r v try_move s = Some (operand, s')"
    and empty: "\<forall>i < length (register_values s). register_values s ! i = None"
  shows "(\<exists>k. register_values s' = (register_values s)[k := Some v])
       \<and> (\<forall>q. q \<noteq> v \<longrightarrow> values_tbl s' q = values_tbl s q)"
proof -
  from fa obtain k where k: "r = Reg k" "k < length (register_values s)"
    by (auto simp: ForceAllocate_def bind_eq_Some_conv MapRegisterToIndex_Some
                   kAllocatableGeneralRegisterCount_def)
  with empty have ek: "register_values s ! k = None" by simp
  with fa k obtain s1 where s1: "Free (Reg k) try_move s = Some s1"
    and da: "DoAllocate (Reg k) v s1 = Some (operand, s')"
    by (auto simp: ForceAllocate_def kAllocatableGeneralRegisterCount_def bind_eq_Some_conv)
  from ek k have "Free (Reg k) try_move s = Some s"
    by (simp add: Free_def kAllocatableGeneralRegisterCount_def)
  with s1 have "s1 = s" by simp
  with DoAllocate_effect[OF da] have "SetRegister (Reg k) v s = Some s'" by simp
  from SetRegister_effect[OF this] SetRegister_other[OF this] show ?thesis by auto
qed

lemma AllocateRegister_on_empty:
  assumes ar: "AllocateRegister v s = Some (operand, s')"
    and empty: "\<forall>i < length (register_values s). register_values s ! i = None"
  shows "(\<exists>k. register_values s' = (register_values s)[k := Some v])
       \<and> (\<forall>q. q \<noteq> v \<longrightarrow> values_tbl s' q = values_tbl s q)"
proof (cases "first_empty (register_values s) 0")
  case None
  then have "None \<notin> set (register_values s)" by (simp add: first_empty_None)
  with empty have "register_values s = []"
    by (metis in_set_conv_nth length_greater_0_conv nth_mem)
  with None ar show ?thesis
    by (simp add: AllocateRegister_def TryAllocateRegister_def
                  kAllocatableGeneralRegisterCount_def MapIndexToRegister_def)
next
  case (Some i)
  from first_empty_Some[OF Some] have i: "i < length (register_values s)" by auto
  with Some ar obtain s1 where "SetRegister (Reg i) v s = Some s1" "s' = s1"
    by (auto simp: AllocateRegister_def TryAllocateRegister_def bind_eq_Some_conv
                   kAllocatableGeneralRegisterCount_def MapIndexToRegister_def)
  then have "SetRegister (Reg i) v s = Some s'" by simp
  from SetRegister_effect[OF this] SetRegister_other[OF this] show ?thesis by auto
qed

lemma AllocateNodeResult_on_empty:
  assumes anr: "AllocateNodeResult n s = Some s'"
    and empty: "\<forall>i < length (register_values s). register_values s ! i = None"
  shows "\<exists>v. Cast_ValueNode n = Some v
       \<and> length (register_values s') = length (register_values s)
       \<and> (\<forall>i < length (register_values s). register_values s' ! i = None \<or> register_values s' ! i = Some v)
       \<and> (\<forall>q. q \<noteq> v \<longrightarrow> values_tbl s' q = values_tbl s q)"
proof -
  from anr obtain v operand where v: "Cast_ValueNode n = Some v"
    and op: "result_policy n = Some operand"
    by (auto simp: AllocateNodeResult_def bind_eq_Some_conv)
  let ?s1 = "SetNoSpillOrHint v (MakeLive v s)"
  have e1: "\<forall>i < length (register_values ?s1). register_values ?s1 ! i = None"
    using empty by simp
  have tbl1: "q \<noteq> v \<Longrightarrow> values_tbl ?s1 q = values_tbl s q" for q by simp
  have fin: "length (register_values s') = length (register_values s)
       \<and> (\<forall>i < length (register_values s). register_values s' ! i = None \<or> register_values s' ! i = Some v)
       \<and> (\<forall>q. q \<noteq> v \<longrightarrow> values_tbl s' q = values_tbl s q)"
    if "\<exists>k. register_values s' = (register_values ?s1)[k := Some v]"
      and "\<forall>q. q \<noteq> v \<longrightarrow> values_tbl s' q = values_tbl ?s1 q"
  proof -
    from that(1) obtain k where rv: "register_values s' = (register_values s)[k := Some v]"
      by auto
    have "\<forall>i < length (register_values s). register_values s' ! i = None \<or> register_values s' ! i = Some v"
    proof (intro allI impI)
      fix i assume "i < length (register_values s)"
      with empty rv show "register_values s' ! i = None \<or> register_values s' ! i = Some v"
        by (cases "i = k") simp_all
    qed
    with rv that(2) show ?thesis by simp
  qed
  show ?thesis
  proof (cases operand)
    case (FIXED_SLOT i)
    with anr v op obtain info where info: "values_tbl ?s1 v = Some info"
      and s': "s' = SetAllocated_result v (STACK_SLOT i) (set_info v (info\<lparr>stack_slot := Some i\<rparr>) ?s1)"
      by (auto simp: AllocateNodeResult_def bind_eq_Some_conv Let_def)
    from s' empty v show ?thesis by simp
  next
    case (EXTENDED_POLICY policy idx)
    from AllocateNodeResult_register_cases[OF anr v op[unfolded EXTENDED_POLICY]]
    obtain allocated s2 r where
      alloc: "ForceAllocate r v default_try_move ?s1 = Some (allocated, s2)
              \<or> AllocateRegister v ?s1 = Some (allocated, s2)"
      and s': "s' = SetAllocated_result v allocated s2"
      by blast
    from alloc have "(\<exists>k. register_values s2 = (register_values ?s1)[k := Some v])
       \<and> (\<forall>q. q \<noteq> v \<longrightarrow> values_tbl s2 q = values_tbl ?s1 q)"
    proof
      assume "ForceAllocate r v default_try_move ?s1 = Some (allocated, s2)"
      from ForceAllocate_on_empty[OF this e1] show ?thesis .
    next
      assume "AllocateRegister v ?s1 = Some (allocated, s2)"
      from AllocateRegister_on_empty[OF this e1] show ?thesis .
    qed
    with s' have "\<exists>k. register_values s' = (register_values ?s1)[k := Some v]"
      "\<forall>q. q \<noteq> v \<longrightarrow> values_tbl s' q = values_tbl ?s1 q" by simp_all
    from fin[OF this] v show ?thesis by simp
  qed
qed

lemma Is_ValueNode_Cast: "Is_ValueNode n \<longleftrightarrow> Cast_ValueNode n \<noteq> None"
  by (auto simp: Is_ValueNode_def Cast_ValueNode_def split: option.splits)

lemma ForceAllocate_after_spill:
  assumes fa: "ForceAllocate r v try_move s = Some (operand, s')"
    and sp: "\<forall>i < length (register_values s). \<forall>q. register_values s ! i = Some q \<longrightarrow> q \<noteq> v
               \<longrightarrow> (\<exists>info. values_tbl s q = Some info \<and> stack_slot info \<noteq> None)"
  shows "(register_values s' = register_values s
            \<or> (\<exists>k < length (register_values s). register_values s' = (register_values s)[k := Some v]))
       \<and> (\<forall>q. q \<noteq> v \<longrightarrow>
             values_tbl s' q = values_tbl s q
             \<or> (\<exists>info k. values_tbl s q = Some info \<and> reg info = Reg k
                   \<and> k < length (register_values s) \<and> register_values s' ! k = Some v
                   \<and> values_tbl s' q = Some (info\<lparr>reg := no_reg\<rparr>)))"
proof -
  from fa obtain k where k: "r = Reg k" "k < length (register_values s)"
    by (auto simp: ForceAllocate_def bind_eq_Some_conv MapRegisterToIndex_Some
                   kAllocatableGeneralRegisterCount_def)
  show ?thesis
  proof (cases "register_values s ! k = Some v")
    case True
    with fa k have "s' = s"
      by (auto simp: ForceAllocate_def kAllocatableGeneralRegisterCount_def bind_eq_Some_conv)
    then show ?thesis by simp
  next
    case False
    with fa k obtain s1 where s1: "Free (Reg k) try_move s = Some s1"
      and da: "DoAllocate (Reg k) v s1 = Some (operand, s')"
      by (auto simp: ForceAllocate_def kAllocatableGeneralRegisterCount_def bind_eq_Some_conv)
    from DoAllocate_effect[OF da] have setreg: "SetRegister (Reg k) v s1 = Some s'" by simp
    from SetRegister_effect[OF setreg] have
      rv': "register_values s' = (register_values s1)[k := Some v]" by auto
    note other = SetRegister_other[OF setreg]
    have spilled_occ: "\<exists>info'. values_tbl s p = Some info' \<and> stack_slot info' \<noteq> None"
      if "register_values s ! k = Some p" for p
      using sp k(2) that False by auto
    from s1 show ?thesis
    proof (cases rule: Free_cases)
      case (empty k')
      with rv' other k show ?thesis by auto
    next
      case (elsewhere k' p info)
      with rv' other k show ?thesis by auto
    next
      case (spilled k' p info)
      then have kk: "k' = k" by simp
      from spilled False kk have pv: "p \<noteq> v" by auto
      have rvs: "register_values s' = (register_values s)[k := Some v]"
        using rv' spilled kk by simp
      have "values_tbl s' q = values_tbl s q
             \<or> (\<exists>info k. values_tbl s q = Some info \<and> reg info = Reg k
                   \<and> k < length (register_values s) \<and> register_values s' ! k = Some v
                   \<and> values_tbl s' q = Some (info\<lparr>reg := no_reg\<rparr>))" if "q \<noteq> v" for q
      proof (cases "q = p")
        case True
        have "values_tbl s' p = Some (info\<lparr>reg := no_reg\<rparr>)"
          using other[OF pv] spilled by simp
        moreover have "register_values s' ! k = Some v" using rvs k(2) by simp
        ultimately show ?thesis using True spilled kk k by auto
      next
        case False
        with other[OF that] spilled show ?thesis by simp
      qed
      with rvs k(2) show ?thesis by blast
    next
      case (existing k' p info i q qinfo)
      with spilled_occ[of p] show ?thesis by auto
    next
      case (moved k' p info i)
      with spilled_occ[of p] show ?thesis by auto
    next
      case (holding k' p info i)
      with spilled_occ[of p] show ?thesis by auto
    next
      case (spill k' p info slot)
      with spilled_occ[of p] show ?thesis by auto
    qed
  qed
qed

lemma AllocateRegister_after_spill:
  assumes ar: "AllocateRegister v s = Some (operand, s')"
    and sp: "\<forall>i < length (register_values s). \<forall>q. register_values s ! i = Some q \<longrightarrow> q \<noteq> v
               \<longrightarrow> (\<exists>info. values_tbl s q = Some info \<and> stack_slot info \<noteq> None)"
  shows "(register_values s' = register_values s
            \<or> (\<exists>k < length (register_values s). register_values s' = (register_values s)[k := Some v]))
       \<and> (\<forall>q. q \<noteq> v \<longrightarrow>
             values_tbl s' q = values_tbl s q
             \<or> (\<exists>info k. values_tbl s q = Some info \<and> reg info = Reg k
                   \<and> k < length (register_values s) \<and> register_values s' ! k = Some v
                   \<and> values_tbl s' q = Some (info\<lparr>reg := no_reg\<rparr>)))"
proof (cases "first_empty (register_values s) 0")
  case None
  with ar obtain furthest r where
    "ForceAllocate r v False s = Some (operand, s')"
    by (auto simp: AllocateRegister_def TryAllocateRegister_def bind_eq_Some_conv)
  from ForceAllocate_after_spill[OF this sp] show ?thesis .
next
  case (Some i)
  from first_empty_Some[OF Some] have i: "i < length (register_values s)" by auto
  with Some ar obtain s1 where "SetRegister (Reg i) v s = Some s1" "s' = s1"
    by (auto simp: AllocateRegister_def TryAllocateRegister_def bind_eq_Some_conv
                   kAllocatableGeneralRegisterCount_def MapIndexToRegister_def)
  then have "SetRegister (Reg i) v s = Some s'" by simp
  from SetRegister_effect[OF this] SetRegister_other[OF this] i show ?thesis by auto
qed

lemma AllocateNodeResult_after_spill:
  assumes anr: "AllocateNodeResult n s = Some s'"
    and sp: "\<forall>i < length (register_values s). \<forall>q. register_values s ! i = Some q
               \<longrightarrow> (\<exists>info. values_tbl s q = Some info \<and> stack_slot info \<noteq> None)"
  shows "\<exists>v. Cast_ValueNode n = Some v
       \<and> (register_values s' = register_values s
            \<or> (\<exists>k < length (register_values s). register_values s' = (register_values s)[k := Some v]))
       \<and> (\<forall>q. q \<noteq> v \<longrightarrow>
             values_tbl s' q = values_tbl s q
             \<or> (\<exists>info k. values_tbl s q = Some info \<and> reg info = Reg k
                   \<and> k < length (register_values s) \<and> register_values s' ! k = Some v
                   \<and> values_tbl s' q = Some (info\<lparr>reg := no_reg\<rparr>)))"
proof -
  from anr obtain v operand where v: "Cast_ValueNode n = Some v"
    and op: "result_policy n = Some operand"
    by (auto simp: AllocateNodeResult_def bind_eq_Some_conv)
  let ?s1 = "SetNoSpillOrHint v (MakeLive v s)"
  have sp1: "\<forall>i < length (register_values ?s1). \<forall>q. register_values ?s1 ! i = Some q \<longrightarrow> q \<noteq> v
               \<longrightarrow> (\<exists>info. values_tbl ?s1 q = Some info \<and> stack_slot info \<noteq> None)"
    using sp by simp
  show ?thesis
  proof (cases operand)
    case (FIXED_SLOT i)
    with anr v op obtain info where info: "values_tbl ?s1 v = Some info"
      and s': "s' = SetAllocated_result v (STACK_SLOT i) (set_info v (info\<lparr>stack_slot := Some i\<rparr>) ?s1)"
      by (auto simp: AllocateNodeResult_def bind_eq_Some_conv Let_def)
    from s' v show ?thesis by simp
  next
    case (EXTENDED_POLICY policy idx)
    from AllocateNodeResult_register_cases[OF anr v op[unfolded EXTENDED_POLICY]]
    obtain allocated s2 r where
      alloc: "ForceAllocate r v default_try_move ?s1 = Some (allocated, s2)
              \<or> AllocateRegister v ?s1 = Some (allocated, s2)"
      and s': "s' = SetAllocated_result v allocated s2"
      by blast
    from alloc have "(register_values s2 = register_values ?s1
            \<or> (\<exists>k < length (register_values ?s1). register_values s2 = (register_values ?s1)[k := Some v]))
       \<and> (\<forall>q. q \<noteq> v \<longrightarrow>
             values_tbl s2 q = values_tbl ?s1 q
             \<or> (\<exists>info k. values_tbl ?s1 q = Some info \<and> reg info = Reg k
                   \<and> k < length (register_values ?s1) \<and> register_values s2 ! k = Some v
                   \<and> values_tbl s2 q = Some (info\<lparr>reg := no_reg\<rparr>)))"
    proof
      assume "ForceAllocate r v default_try_move ?s1 = Some (allocated, s2)"
      from ForceAllocate_after_spill[OF this sp1] show ?thesis .
    next
      assume "AllocateRegister v ?s1 = Some (allocated, s2)"
      from AllocateRegister_after_spill[OF this sp1] show ?thesis .
    qed
    with s' v show ?thesis by simp
  qed
qed

text \<open>
  Claim C6, as stated, fails for a call that produces a value: the result is allocated after
  the registers are cleared, so after the node the register file holds the result.
\<close>

theorem call_node_counterexample:
  "map_option register_values
     (AllocateNode ((def_node 1 3)\<lparr>is_call := True\<rparr>) (initial_allocator 4 False))
   = Some [Some (value_node 1 3), None, None, None]"
  by code_simp

text \<open>
  Claim C6, amended. After a call node is processed, every register is empty or holds the
  result of the node itself (so all are empty when the node produces no value), and every
  other record that occupied a register when the inputs, temporaries and uses of the node had
  been processed has a stack slot and no register.
\<close>

theorem call_node_leaves_only_result:
  assumes an: "AllocateNode n s = Some s'" and call: "is_call n"
  shows "\<exists>s3. state_at_side_effects n s = Some s3
     \<and> (\<forall>i < length (register_values s').
           register_values s' ! i = None \<or> register_values s' ! i = Cast_ValueNode n)
     \<and> (\<forall>i < length (register_values s3). \<forall>q.
           register_values s3 ! i = Some q \<longrightarrow> Some q \<noteq> Cast_ValueNode n \<longrightarrow>
             (\<exists>info. values_tbl s' q = Some info \<and> stack_slot info \<noteq> None \<and> reg info = no_reg))"
  using an
proof (cases rule: AllocateNode_steps)
  case (1 s3 s4 s5 s6)
  let ?N = "length (register_values s3)"
  from 1(2) call have sc: "SpillAndClearRegisters_loop [0..<?N] s3 = Some s4"
    by (simp add: SpillAndClearRegisters_def kAllocatableGeneralRegisterCount_def)
  note props = SpillAndClear_loop_props[OF sc]
  from props have len4: "length (register_values s4) = ?N" by simp
  from props have e4: "\<forall>i < length (register_values s4). register_values s4 ! i = None"
    by (simp add: len4)
  from props have sp4: "\<forall>i < ?N. \<forall>q. register_values s3 ! i = Some q \<longrightarrow>
      (\<exists>info'. values_tbl s4 q = Some info' \<and> stack_slot info' \<noteq> None \<and> reg info' = no_reg)"
    by simp
  have "SpillRegisters s4 = Some s4"
    unfolding SpillRegisters_def kAllocatableGeneralRegisterCount_def
    by (rule SpillRegisters_loop_empty) (use e4 in simp)
  with 1(3) have s5: "s5 = s4" by (simp split: if_splits)
  have fin: "length (register_values s6) = ?N
     \<and> (\<forall>i < ?N. register_values s6 ! i = None \<or> register_values s6 ! i = Cast_ValueNode n)
     \<and> (\<forall>q. Some q \<noteq> Cast_ValueNode n \<longrightarrow> values_tbl s6 q = values_tbl s4 q)"
  proof (cases "Is_ValueNode n")
    case True
    with 1(4) s5 have "AllocateNodeResult n s4 = Some s6" by simp
    from AllocateNodeResult_on_empty[OF this e4] len4 show ?thesis by auto
  next
    case False
    with 1(4) s5 have "s6 = s4" by simp
    with e4 len4 show ?thesis by simp
  qed
  have "\<forall>i < length (register_values s3). \<forall>q.
           register_values s3 ! i = Some q \<longrightarrow> Some q \<noteq> Cast_ValueNode n \<longrightarrow>
             (\<exists>info. values_tbl s' q = Some info \<and> stack_slot info \<noteq> None \<and> reg info = no_reg)"
  proof (intro allI impI)
    fix i q
    assume a: "i < length (register_values s3)" "register_values s3 ! i = Some q"
      "Some q \<noteq> Cast_ValueNode n"
    with sp4 obtain info where "values_tbl s4 q = Some info" "stack_slot info \<noteq> None"
      "reg info = no_reg" by blast
    with fin a(3) 1(6) show "\<exists>info. values_tbl s' q = Some info \<and> stack_slot info \<noteq> None \<and> reg info = no_reg"
      by simp
  qed
  with fin 1(1,5) show ?thesis by simp
qed

theorem call_node_leaves_only_result_witness:
  "\<exists>s' s3. AllocateNode ((def_node 2 5)\<lparr>is_call := True\<rparr>) (one_resident (value_node 1 5) None) = Some s'
     \<and> state_at_side_effects ((def_node 2 5)\<lparr>is_call := True\<rparr>) (one_resident (value_node 1 5) None) = Some s3
     \<and> (\<forall>i < length (register_values s').
           register_values s' ! i = None
           \<or> register_values s' ! i = Cast_ValueNode ((def_node 2 5)\<lparr>is_call := True\<rparr>))
     \<and> (\<forall>i < length (register_values s3). \<forall>q.
           register_values s3 ! i = Some q \<longrightarrow>
           Some q \<noteq> Cast_ValueNode ((def_node 2 5)\<lparr>is_call := True\<rparr>) \<longrightarrow>
             (\<exists>info. values_tbl s' q = Some info \<and> stack_slot info \<noteq> None \<and> reg info = no_reg))"
proof -
  have "case AllocateNode ((def_node 2 5)\<lparr>is_call := True\<rparr>) (one_resident (value_node 1 5) None)
          of None \<Rightarrow> False | Some s' \<Rightarrow> True"
    by code_simp
  then obtain s' where
    run: "AllocateNode ((def_node 2 5)\<lparr>is_call := True\<rparr>) (one_resident (value_node 1 5) None) = Some s'"
    by (auto split: option.splits)
  have call: "is_call ((def_node 2 5)\<lparr>is_call := True\<rparr>)" by simp
  from call_node_leaves_only_result[OF run call] run show ?thesis by blast
qed

text \<open>
  Claim C7, as stated, fails for a node that produces a value: the result is allocated after
  the spill, so after the node it occupies a register and has no stack slot.
\<close>

theorem deopt_node_counterexample:
  "map_option register_values
     (AllocateNode ((def_node 1 3)\<lparr>can_deopt := True\<rparr>) (initial_allocator 4 False))
   = Some [Some (value_node 1 3), None, None, None]
   \<and> map_option stack_slot
       (AllocateNode ((def_node 1 3)\<lparr>can_deopt := True\<rparr>) (initial_allocator 4 False)
          \<bind> info_of (value_node 1 3))
     = Some None"
  by code_simp

text \<open>
  Claim C7, amended. When a node that can deoptimize and is not a call is processed, the spill
  that follows the processing of its inputs, temporaries and uses leaves the register file
  and the register field of every record as they are and gives a stack slot to every record
  that occupies a register. After the node, every register holds the record it held when the
  spill ran or the result of the node, and every record in the register file other than the
  result of the node has a stack slot; the record of every other value keeps its stack slot
  and its register field, except that the field is reset when it named the register that
  the result of the node took.
\<close>

theorem deopt_node_keeps_spilled_occupants:
  assumes an: "AllocateNode n s = Some s'" and deopt: "can_deopt n" and nocall: "\<not> is_call n"
  shows "\<exists>s3 s4. state_at_side_effects n s = Some s3 \<and> SpillRegisters s3 = Some s4
     \<and> register_values s4 = register_values s3
     \<and> (\<forall>q info. values_tbl s3 q = Some info \<longrightarrow>
           (\<exists>info'. values_tbl s4 q = Some info' \<and> reg info' = reg info))
     \<and> (\<forall>i < length (register_values s4). \<forall>q. register_values s4 ! i = Some q \<longrightarrow>
           (\<exists>info. values_tbl s4 q = Some info \<and> stack_slot info \<noteq> None))
     \<and> length (register_values s') = length (register_values s3)
     \<and> (\<forall>i < length (register_values s').
           register_values s' ! i = register_values s3 ! i
           \<or> (\<exists>v. Cast_ValueNode n = Some v \<and> register_values s' ! i = Some v))
     \<and> (\<forall>i < length (register_values s'). \<forall>q.
           register_values s' ! i = Some q \<longrightarrow> Some q \<noteq> Cast_ValueNode n \<longrightarrow>
             (\<exists>info. values_tbl s' q = Some info \<and> stack_slot info \<noteq> None))
     \<and> (\<forall>q info. values_tbl s4 q = Some info \<longrightarrow> Some q \<noteq> Cast_ValueNode n \<longrightarrow>
           (\<exists>info'. values_tbl s' q = Some info' \<and> stack_slot info' = stack_slot info
              \<and> (reg info' = reg info
                   \<or> reg info' = no_reg
                      \<and> (\<exists>k v. reg info = Reg k \<and> Cast_ValueNode n = Some v
                             \<and> register_values s' ! k = Some v))))"
  using an
proof (cases rule: AllocateNode_steps)
  case (1 s3 s4 s5 s6)
  from 1(2) nocall have s4: "s4 = s3" by simp
  with 1(3) deopt have sr: "SpillRegisters s3 = Some s5" by simp
  let ?N = "length (register_values s3)"
  from sr have loop: "SpillRegisters_loop [0..<?N] s3 = Some s5"
    by (simp add: SpillRegisters_def kAllocatableGeneralRegisterCount_def)
  have rv: "register_values s5 = register_values s3" by (rule SpillRegisters_loop_rv[OF loop])
  have keeps: "\<forall>q info. values_tbl s3 q = Some info \<longrightarrow>
           (\<exists>info'. values_tbl s5 q = Some info' \<and> reg info' = reg info)"
    using SpillRegisters_loop_keeps[OF loop] by blast
  have spilled: "\<forall>i < length (register_values s5). \<forall>q. register_values s5 ! i = Some q \<longrightarrow>
           (\<exists>info. values_tbl s5 q = Some info \<and> stack_slot info \<noteq> None)"
  proof (intro allI impI)
    fix i q assume "i < length (register_values s5)" "register_values s5 ! i = Some q"
    with rv have "i \<in> set [0..<?N]" "register_values s3 ! i = Some q" by simp_all
    from SpillRegisters_loop_spilled[OF loop this]
    show "\<exists>info. values_tbl s5 q = Some info \<and> stack_slot info \<noteq> None" .
  qed
  have post: "length (register_values s6) = length (register_values s5)
     \<and> (\<forall>i < length (register_values s6).
           register_values s6 ! i = register_values s5 ! i
           \<or> (\<exists>v. Cast_ValueNode n = Some v \<and> register_values s6 ! i = Some v))
     \<and> (\<forall>q info. values_tbl s5 q = Some info \<longrightarrow> Some q \<noteq> Cast_ValueNode n \<longrightarrow>
           (\<exists>info'. values_tbl s6 q = Some info' \<and> stack_slot info' = stack_slot info
              \<and> (reg info' = reg info
                   \<or> reg info' = no_reg
                      \<and> (\<exists>k v. reg info = Reg k \<and> Cast_ValueNode n = Some v
                             \<and> register_values s6 ! k = Some v))))"
  proof (cases "Is_ValueNode n")
    case False
    with 1(4) have "s6 = s5" by simp
    then show ?thesis by simp
  next
    case True
    with 1(4) have anr: "AllocateNodeResult n s5 = Some s6" by simp
    from AllocateNodeResult_after_spill[OF anr spilled] obtain v where
      v: "Cast_ValueNode n = Some v"
      and r: "register_values s6 = register_values s5
            \<or> (\<exists>k < length (register_values s5). register_values s6 = (register_values s5)[k := Some v])"
      and t: "\<forall>q. q \<noteq> v \<longrightarrow>
             values_tbl s6 q = values_tbl s5 q
             \<or> (\<exists>info k. values_tbl s5 q = Some info \<and> reg info = Reg k
                   \<and> k < length (register_values s5) \<and> register_values s6 ! k = Some v
                   \<and> values_tbl s6 q = Some (info\<lparr>reg := no_reg\<rparr>))"
      by blast
    from r have len: "length (register_values s6) = length (register_values s5)" by auto
    have regs: "\<forall>i < length (register_values s6).
           register_values s6 ! i = register_values s5 ! i
           \<or> (\<exists>v. Cast_ValueNode n = Some v \<and> register_values s6 ! i = Some v)"
    proof (intro allI impI)
      fix i assume i: "i < length (register_values s6)"
      from r show "register_values s6 ! i = register_values s5 ! i
           \<or> (\<exists>v. Cast_ValueNode n = Some v \<and> register_values s6 ! i = Some v)"
      proof
        assume "register_values s6 = register_values s5"
        then show ?thesis by simp
      next
        assume "\<exists>k < length (register_values s5). register_values s6 = (register_values s5)[k := Some v]"
        then obtain k where "k < length (register_values s5)"
          "register_values s6 = (register_values s5)[k := Some v]" by blast
        with v i show ?thesis by (cases "i = k") simp_all
      qed
    qed
    have recs: "\<forall>q info. values_tbl s5 q = Some info \<longrightarrow> Some q \<noteq> Cast_ValueNode n \<longrightarrow>
           (\<exists>info'. values_tbl s6 q = Some info' \<and> stack_slot info' = stack_slot info
              \<and> (reg info' = reg info
                   \<or> reg info' = no_reg
                      \<and> (\<exists>k v. reg info = Reg k \<and> Cast_ValueNode n = Some v
                             \<and> register_values s6 ! k = Some v)))"
    proof (intro allI impI)
      fix q info
      assume a: "values_tbl s5 q = Some info" "Some q \<noteq> Cast_ValueNode n"
      with v have "q \<noteq> v" by auto
      with t have "values_tbl s6 q = values_tbl s5 q
             \<or> (\<exists>info k. values_tbl s5 q = Some info \<and> reg info = Reg k
                   \<and> k < length (register_values s5) \<and> register_values s6 ! k = Some v
                   \<and> values_tbl s6 q = Some (info\<lparr>reg := no_reg\<rparr>))" by blast
      then show "\<exists>info'. values_tbl s6 q = Some info' \<and> stack_slot info' = stack_slot info
              \<and> (reg info' = reg info
                   \<or> reg info' = no_reg
                      \<and> (\<exists>k v. reg info = Reg k \<and> Cast_ValueNode n = Some v
                             \<and> register_values s6 ! k = Some v))"
      proof
        assume "values_tbl s6 q = values_tbl s5 q"
        with a show ?thesis by simp
      next
        assume "\<exists>info k. values_tbl s5 q = Some info \<and> reg info = Reg k
                   \<and> k < length (register_values s5) \<and> register_values s6 ! k = Some v
                   \<and> values_tbl s6 q = Some (info\<lparr>reg := no_reg\<rparr>)"
        with a v show ?thesis by auto
      qed
    qed
    from len regs recs show ?thesis by blast
  qed
  from post have len6: "length (register_values s6) = length (register_values s5)"
    and regs6: "\<forall>i < length (register_values s6).
           register_values s6 ! i = register_values s5 ! i
           \<or> (\<exists>v. Cast_ValueNode n = Some v \<and> register_values s6 ! i = Some v)"
    and recs6: "\<forall>q info. values_tbl s5 q = Some info \<longrightarrow> Some q \<noteq> Cast_ValueNode n \<longrightarrow>
           (\<exists>info'. values_tbl s6 q = Some info' \<and> stack_slot info' = stack_slot info
              \<and> (reg info' = reg info
                   \<or> reg info' = no_reg
                      \<and> (\<exists>k v. reg info = Reg k \<and> Cast_ValueNode n = Some v
                             \<and> register_values s6 ! k = Some v)))"
    by blast+
  have occ: "\<forall>i < length (register_values s6). \<forall>q.
           register_values s6 ! i = Some q \<longrightarrow> Some q \<noteq> Cast_ValueNode n \<longrightarrow>
             (\<exists>info. values_tbl s6 q = Some info \<and> stack_slot info \<noteq> None)"
  proof (intro allI impI)
    fix i q
    assume a: "i < length (register_values s6)" "register_values s6 ! i = Some q"
      "Some q \<noteq> Cast_ValueNode n"
    from regs6 a have at5: "register_values s5 ! i = Some q" by auto
    from a(1) len6 have "i < length (register_values s5)" by simp
    with spilled at5 obtain info where
      info: "values_tbl s5 q = Some info" "stack_slot info \<noteq> None" by blast
    from recs6 info(1) a(3) obtain info' where
      "values_tbl s6 q = Some info'" "stack_slot info' = stack_slot info" by blast
    with info(2) show "\<exists>info. values_tbl s6 q = Some info \<and> stack_slot info \<noteq> None" by simp
  qed
  from 1(1) sr rv keeps spilled len6 regs6 recs6 occ 1(5,6)
  show ?thesis
    by (intro exI[of _ s3] exI[of _ s5]) simp
qed

theorem deopt_node_keeps_spilled_occupants_witness:
  "\<exists>s'. AllocateNode ((def_node 2 5)\<lparr>can_deopt := True\<rparr>) (one_resident (value_node 1 5) None) = Some s'
     \<and> register_values s' = [Some (value_node 1 5), Some (value_node 2 5), None, None]
     \<and> (\<forall>i < length (register_values s'). \<forall>q.
           register_values s' ! i = Some q \<longrightarrow>
           Some q \<noteq> Cast_ValueNode ((def_node 2 5)\<lparr>can_deopt := True\<rparr>) \<longrightarrow>
             (\<exists>info. values_tbl s' q = Some info \<and> stack_slot info \<noteq> None))"
proof -
  let ?n = "(def_node 2 5)\<lparr>can_deopt := True\<rparr>"
  have "case AllocateNode ?n (one_resident (value_node 1 5) None)
          of None \<Rightarrow> False
           | Some s' \<Rightarrow> register_values s' = [Some (value_node 1 5), Some (value_node 2 5), None, None]"
    by code_simp
  then obtain s' where
    run: "AllocateNode ?n (one_resident (value_node 1 5) None) = Some s'"
    and rv: "register_values s' = [Some (value_node 1 5), Some (value_node 2 5), None, None]"
    by (auto split: option.splits)
  have h: "can_deopt ?n" "\<not> is_call ?n"
    by (simp_all add: def_node_def)
  from deopt_node_keeps_spilled_occupants[OF run h] run rv show ?thesis by blast
qed

subsection \<open>The register file and the register fields\<close>

text \<open>
  Claim C8, as stated, fails in the direction from the register file to the records: an input
  with a fixed register policy whose value is in another register is put into the fixed
  register as well. The value is then in both registers, and its register field names the
  fixed one only.
\<close>

theorem register_file_counterexample:
  "map_option register_values
     (AllocateNode (def_node 1 5) (initial_allocator 4 False)
        \<bind> AllocateNode (plain_node 2 [use_of (value_node 1 5) (EXTENDED_POLICY FIXED_REGISTER 1)]))
   = Some [Some (value_node 1 5), Some (value_node 1 5), None, None]
   \<and> map_option reg
       (AllocateNode (def_node 1 5) (initial_allocator 4 False)
          \<bind> AllocateNode (plain_node 2 [use_of (value_node 1 5) (EXTENDED_POLICY FIXED_REGISTER 1)])
          \<bind> info_of (value_node 1 5))
     = Some (Reg 1)
   \<and> MapIndexToRegister 4 0 = Some (Reg 0)"
  by code_simp

lemma consistent_trace [simp]: "consistent (trace e s) = consistent s"
  by (rule consistent_cong) simp_all

lemma clear_registers_loop_consistent:
  "clear_registers_loop is s = Some s' \<Longrightarrow> consistent s \<Longrightarrow> \<forall>i \<in> set is. i < length (register_values s)
     \<Longrightarrow> consistent s' \<and> length (register_values s') = length (register_values s)
         \<and> (\<forall>i. i \<in> set is \<or> register_values s ! i = None \<longrightarrow> register_values s' ! i = None)"
proof (induction "is" arbitrary: s)
  case Nil
  then show ?case by simp
next
  case (Cons i rest)
  show ?case
  proof (cases "register_values s ! i")
    case None
    with Cons.prems have "clear_registers_loop rest s = Some s'" by simp
    from Cons.IH[OF this Cons.prems(2)] Cons.prems(3) None show ?thesis by auto
  next
    case (Some p)
    with Cons.prems(1) obtain info where info: "values_tbl s p = Some info"
      and rest: "clear_registers_loop rest
                   ((set_info p (info\<lparr>reg := no_reg\<rparr>) s)
                      \<lparr>register_values := (register_values s)[i := None]\<rparr>) = Some s'"
      by (auto split: option.splits)
    let ?s1 = "(set_info p (info\<lparr>reg := no_reg\<rparr>) s)\<lparr>register_values := (register_values s)[i := None]\<rparr>"
    have c1: "consistent ?s1" by (rule clear_one_consistent[OF Cons.prems(2) Some info])
    have b1: "\<forall>j \<in> set rest. j < length (register_values ?s1)" using Cons.prems(3) by simp
    from Cons.IH[OF rest c1 b1] have ih: "consistent s'"
      "length (register_values s') = length (register_values s)"
      "\<forall>j. j \<in> set rest \<or> register_values ?s1 ! j = None \<longrightarrow> register_values s' ! j = None"
      by simp_all
    have "register_values s' ! j = None" if "j \<in> set (i # rest) \<or> register_values s ! j = None" for j
    proof (cases "j = i")
      case True
      with Cons.prems(3) have "register_values ?s1 ! j = None" by simp
      with ih(3) show ?thesis by blast
    next
      case False
      with that have "j \<in> set rest \<or> register_values ?s1 ! j = None" by auto
      with ih(3) show ?thesis by blast
    qed
    with ih(1,2) show ?thesis by blast
  qed
qed

lemma fill_one_consistent:
  assumes cons: "consistent s" and empty: "register_values s ! i = None"
    and i: "i < length (register_values s)" and info: "values_tbl s p = Some info"
  shows "consistent ((set_info p (info\<lparr>reg := Reg i\<rparr>) s)
                       \<lparr>register_values := (register_values s)[i := Some p]\<rparr>)"
proof (rule consistentI)
  fix v vinfo r
  assume a: "values_tbl ((set_info p (info\<lparr>reg := Reg i\<rparr>) s)
                       \<lparr>register_values := (register_values s)[i := Some p]\<rparr>) v = Some vinfo"
    "reg vinfo = Reg r"
  show "r < length (register_values ((set_info p (info\<lparr>reg := Reg i\<rparr>) s)
                       \<lparr>register_values := (register_values s)[i := Some p]\<rparr>))
      \<and> register_values ((set_info p (info\<lparr>reg := Reg i\<rparr>) s)
                       \<lparr>register_values := (register_values s)[i := Some p]\<rparr>) ! r = Some v"
  proof (cases "v = p")
    case True
    with a have "r = i" by auto
    with True i show ?thesis by simp
  next
    case False
    with a have "values_tbl s v = Some vinfo" by simp
    from consistent_reg[OF cons this a(2)] have r: "r < length (register_values s)"
      "register_values s ! r = Some v" by simp_all
    with empty have "r \<noteq> i" by auto
    with r show ?thesis by simp
  qed
next
  fix v vinfo
  assume a: "values_tbl ((set_info p (info\<lparr>reg := Reg i\<rparr>) s)
                       \<lparr>register_values := (register_values s)[i := Some p]\<rparr>) v = Some vinfo"
  show "node vinfo = v"
  proof (cases "v = p")
    case True
    with a consistent_node[OF cons info] show ?thesis by auto
  next
    case False
    with a have "values_tbl s v = Some vinfo" by simp
    from consistent_node[OF cons this] show ?thesis .
  qed
qed

lemma fill_registers_loop_consistent:
  "fill_registers_loop ts is s = Some s' \<Longrightarrow> consistent s \<Longrightarrow> distinct is
     \<Longrightarrow> \<forall>i \<in> set is. register_values s ! i = None \<Longrightarrow> consistent s'"
proof (induction "is" arbitrary: s)
  case Nil
  then show ?case by simp
next
  case (Cons i rest)
  show ?case
  proof (cases "fst (LoadMergeState (ts ! i))")
    case None
    with Cons.prems(1) have "fill_registers_loop ts rest s = Some s'" by simp
    from Cons.IH[OF this Cons.prems(2)] Cons.prems(3,4) show ?thesis by simp
  next
    case (Some p)
    with Cons.prems(1) obtain info where info: "values_tbl s p = Some info"
      and i: "i < length (register_values s)"
      and rest: "fill_registers_loop ts rest
                   ((set_info p (info\<lparr>reg := Reg i\<rparr>) s)
                      \<lparr>register_values := (register_values s)[i := Some p]\<rparr>) = Some s'"
      by (auto simp: MapIndexToRegister_def kAllocatableGeneralRegisterCount_def
               split: option.splits if_splits)
    let ?s1 = "(set_info p (info\<lparr>reg := Reg i\<rparr>) s)\<lparr>register_values := (register_values s)[i := Some p]\<rparr>"
    from Cons.prems(4) have e: "register_values s ! i = None" by simp
    have c1: "consistent ?s1" by (rule fill_one_consistent[OF Cons.prems(2) e i info])
    have d: "distinct rest" using Cons.prems(3) by simp
    have "register_values ?s1 ! j = None" if "j \<in> set rest" for j
    proof -
      from that Cons.prems(3) have "i \<noteq> j" by auto
      with that Cons.prems(4) show ?thesis by simp
    qed
    then have "\<forall>j \<in> set rest. register_values ?s1 ! j = None" by blast
    from Cons.IH[OF rest c1 d this] show ?thesis .
  qed
qed

lemma InitializeRegisterValues_consistent:
  assumes "InitializeRegisterValues ts s = Some s'" and "consistent s"
  shows "consistent s'"
proof -
  from assms(1) obtain s1 where
    a: "clear_registers_loop [0..<length (register_values s)] s = Some s1" and
    b: "fill_registers_loop ts [0..<length (register_values s1)] s1 = Some s'"
    by (auto simp: InitializeRegisterValues_def bind_eq_Some_conv kAllocatableGeneralRegisterCount_def)
  have "\<forall>i \<in> set [0..<length (register_values s)]. i < length (register_values s)" by simp
  from clear_registers_loop_consistent[OF a assms(2) this] have
    c: "consistent s1" "length (register_values s1) = length (register_values s)"
       "\<forall>i. i \<in> set [0..<length (register_values s)] \<longrightarrow> register_values s1 ! i = None"
    by simp_all
  from c(2,3) have "\<forall>i \<in> set [0..<length (register_values s1)]. register_values s1 ! i = None"
    by simp
  from fill_registers_loop_consistent[OF b c(1) _ this] show ?thesis by simp
qed

lemma clear_dead_loop_consistent:
  "clear_dead_loop source_id target is s = Some s' \<Longrightarrow> consistent s \<Longrightarrow> consistent s'"
proof (induction "is" arbitrary: s)
  case Nil
  then show ?case by simp
next
  case (Cons i rest)
  show ?case
  proof (cases "register_values s ! i")
    case None
    with Cons.prems have "clear_dead_loop source_id target rest s = Some s'" by simp
    from Cons.IH[OF this Cons.prems(2)] show ?thesis .
  next
    case (Some p)
    show ?thesis
    proof (cases "IsLiveAtTarget s (Some p) source_id target")
      case None
      with Some Cons.prems(1) show ?thesis by simp
    next
      case live: (Some b)
      show ?thesis
      proof (cases b)
        case True
        with Some live Cons.prems(1) have "clear_dead_loop source_id target rest s = Some s'" by simp
        from Cons.IH[OF this Cons.prems(2)] show ?thesis .
      next
        case False
        with Some live Cons.prems(1) obtain info where info: "values_tbl s p = Some info"
          and rest: "clear_dead_loop source_id target rest
                   ((set_info p (info\<lparr>reg := no_reg\<rparr>) s)
                      \<lparr>register_values := (register_values s)[i := None]\<rparr>) = Some s'"
          by (auto split: option.splits)
        from Cons.IH[OF rest clear_one_consistent[OF Cons.prems(2) Some info]] show ?thesis .
      qed
    qed
  qed
qed

lemma InitializeBranchTargetRegisterValues_same:
  assumes "InitializeBranchTargetRegisterValues source_id tgt s = Some s'"
  shows "register_values s' = register_values s \<and> values_tbl s' = values_tbl s"
  using assms
  by (auto simp: InitializeBranchTargetRegisterValues_def bind_eq_Some_conv split: option.splits)

lemma MergeRegisterValues_same:
  assumes "MergeRegisterValues control_id tgt pred_id s = Some s'"
  shows "register_values s' = register_values s \<and> values_tbl s' = values_tbl s"
  using assms InitializeBranchTargetRegisterValues_same[of control_id tgt s s']
  by (auto simp: MergeRegisterValues_def bind_eq_Some_conv split: option.splits list.splits if_splits)

lemma InitializeConditionalBranchRegisters_consistent:
  assumes run: "InitializeConditionalBranchRegisters g node_ident t s = Some s'" and cons: "consistent s"
  shows "consistent s'"
proof -
  from run obtain target where target: "block_at g t = Some target"
    and body: "(if is_empty_block target then
       (case kind (control_node target) of
          Jump t2 \<Rightarrow> do {
            target2 \<leftarrow> block_at g t2;
            MergeRegisterValues node_ident (t2, target2) (predecessor_id target) s
          }
        | JumpLoop t2 \<Rightarrow> None
        | ConditionalControlNode t2 f2 \<Rightarrow> None
        | Return \<Rightarrow> None)
     else if has_state s t then InitializeBranchTargetRegisterValues node_ident (t, target) s
     else clear_dead_loop node_ident target [0..<kAllocatableGeneralRegisterCount s] s) = Some s'"
    by (auto simp: InitializeConditionalBranchRegisters_def bind_eq_Some_conv)
  show ?thesis
  proof (cases "is_empty_block target")
    case True
    with body obtain t2 target2 where
      "MergeRegisterValues node_ident (t2, target2) (predecessor_id target) s = Some s'"
      by (auto simp: bind_eq_Some_conv split: ControlKind.splits)
    from MergeRegisterValues_same[OF this] cons consistent_cong[of s' s] show ?thesis by simp
  next
    case False
    show ?thesis
    proof (cases "has_state s t")
      case True
      with False body have "InitializeBranchTargetRegisterValues node_ident (t, target) s = Some s'"
        by simp
      from InitializeBranchTargetRegisterValues_same[OF this] cons consistent_cong[of s' s]
      show ?thesis by simp
    next
      case nostate: False
      with False body have
        "clear_dead_loop node_ident target [0..<kAllocatableGeneralRegisterCount s] s = Some s'"
        by simp
      from clear_dead_loop_consistent[OF this cons] show ?thesis .
    qed
  qed
qed

lemma inject_phis_same:
  "inject_phis pred_id ps s = Some s' \<Longrightarrow>
     register_values s' = register_values s \<and> values_tbl s' = values_tbl s"
proof (induction ps arbitrary: s)
  case Nil
  then show ?case by simp
next
  case (Cons phi rest)
  from Cons.prems obtain location where
    "inject_phis pred_id rest
       (s\<lparr>input_allocated := (input_allocated s)((node_id (phi_node phi), pred_id) \<mapsto> location)\<rparr>) = Some s'"
    by (auto simp: bind_eq_Some_conv)
  from Cons.IH[OF this] show ?case by simp
qed

lemma update_phi_uses_consistent:
  "update_phi_uses use pred_id ps s = Some s' \<Longrightarrow> consistent s \<Longrightarrow> consistent s'"
proof (induction ps arbitrary: s)
  case Nil
  then show ?case by simp
next
  case (Cons phi rest)
  from Cons.prems(1) obtain input s1 where
    a: "UpdateInputUseAndClearDead use input s = Some s1" and
    b: "update_phi_uses use pred_id rest s1 = Some s'"
    by (auto simp: bind_eq_Some_conv)
  from Cons.IH[OF b Update_consistent[OF a Cons.prems(2)]] show ?case .
qed

lemma AllocateControlNode_consistent:
  assumes run: "AllocateControlNode g n block s = Some s'" and cons: "consistent s"
  shows "consistent s'"
proof -
  from run obtain s1 s2 s3 s4 s5 s6 s7 where
    1: "AssignInputs (nd_id n) 0 (nd_inputs n) s = Some s1" and
    2: "AssignTemporaries n s1 = Some s2" and
    3: "UpdateInputs (nd_id n) (nd_inputs n) s2 = Some s3" and
    4: "(if is_call n then SpillAndClearRegisters s3 else Some s3) = Some s4" and
    5: "(case unconditional_target (kind n) of
              None \<Rightarrow> Some s4
            | Some t \<Rightarrow> do {
                target \<leftarrow> block_at g t;
                if phis target \<noteq> [] then do {
                  s4' \<leftarrow> inject_phis (predecessor_id block) (phis target) s4;
                  update_phi_uses (nd_id n) (predecessor_id block) (phis target) s4'
                }
                else Some s4
              }) = Some s5" and
    6: "(if can_deopt n then SpillRegisters s5 else Some s5) = Some s6" and
    7: "(case kind n of
              Jump t \<Rightarrow>
                if \<not> is_empty_block block then do {
                  target \<leftarrow> block_at g t;
                  MergeRegisterValues (nd_id n) (t, target) (predecessor_id block) s6
                }
                else Some s6
            | JumpLoop t \<Rightarrow>
                if \<not> is_empty_block block then do {
                  target \<leftarrow> block_at g t;
                  MergeRegisterValues (nd_id n) (t, target) (predecessor_id block) s6
                }
                else Some s6
            | ConditionalControlNode if_true if_false \<Rightarrow> do {
                s6' \<leftarrow> InitializeConditionalBranchRegisters g (nd_id n) if_true s6;
                InitializeConditionalBranchRegisters g (nd_id n) if_false s6'
              }
            | Return \<Rightarrow> Some s6) = Some s7" and
    8: "s' = trace (TraceProcess (nd_id n)) s7"
    by (auto simp: AllocateControlNode_def bind_eq_Some_conv)
  have c3: "consistent s3"
    using UpdateInputs_consistent[OF 3 AssignTemporaries_consistent[OF 2 AssignInputs_consistent[OF 1 cons]]] .
  have c4: "consistent s4"
    using 4 c3 SpillAndClearRegisters_consistent by (cases "is_call n") auto
  have c5: "consistent s5"
  proof (cases "unconditional_target (kind n)")
    case None
    with 5 c4 show ?thesis by simp
  next
    case (Some t)
    with 5 obtain target where target: "block_at g t = Some target"
      and body: "(if phis target \<noteq> [] then do {
                  s4' \<leftarrow> inject_phis (predecessor_id block) (phis target) s4;
                  update_phi_uses (nd_id n) (predecessor_id block) (phis target) s4'
                }
                else Some s4) = Some s5"
      by (auto simp: bind_eq_Some_conv)
    show ?thesis
    proof (cases "phis target = []")
      case True
      with body c4 show ?thesis by simp
    next
      case False
      with body obtain s4' where
        a: "inject_phis (predecessor_id block) (phis target) s4 = Some s4'" and
        b: "update_phi_uses (nd_id n) (predecessor_id block) (phis target) s4' = Some s5"
        by (auto simp: bind_eq_Some_conv)
      from inject_phis_same[OF a] c4 consistent_cong[of s4' s4] have "consistent s4'" by simp
      from update_phi_uses_consistent[OF b this] show ?thesis .
    qed
  qed
  have c6: "consistent s6"
    using 6 c5 SpillRegisters_consistent by (cases "can_deopt n") auto
  have merge: "consistent s7"
    if "block_at g t = Some target"
       "MergeRegisterValues (nd_id n) (t, target) (predecessor_id block) s6 = Some s7" for t target
    using MergeRegisterValues_same[OF that(2)] c6 consistent_cong[of s7 s6] by simp
  have c7: "consistent s7"
  proof (cases "kind n")
    case (Jump t)
    with 7 c6 merge show ?thesis by (auto simp: bind_eq_Some_conv split: if_splits)
  next
    case (JumpLoop t)
    with 7 c6 merge show ?thesis by (auto simp: bind_eq_Some_conv split: if_splits)
  next
    case (ConditionalControlNode if_true if_false)
    with 7 obtain s6' where
      a: "InitializeConditionalBranchRegisters g (nd_id n) if_true s6 = Some s6'" and
      b: "InitializeConditionalBranchRegisters g (nd_id n) if_false s6' = Some s7"
      by (auto simp: bind_eq_Some_conv)
    from InitializeConditionalBranchRegisters_consistent[OF b
           InitializeConditionalBranchRegisters_consistent[OF a c6]]
    show ?thesis .
  next
    case Return
    with 7 c6 show ?thesis by simp
  qed
  with 8 show ?thesis by simp
qed

lemma SetAllocated_result_consistent [simp]:
  "consistent (SetAllocated_result v operand s) = consistent s"
  by (rule consistent_cong) simp_all

lemma TryAllocateToInput_loop_consistent:
  "TryAllocateToInput_loop phi owner k ins s = Some s' \<Longrightarrow> consistent s \<Longrightarrow> consistent s'"
proof (induction ins arbitrary: k)
  case Nil
  then show ?case by simp
next
  case (Cons input rest)
  show ?case
  proof (cases "input_allocated s (owner, k)")
    case None
    with Cons.prems(1) have "TryAllocateToInput_loop phi owner (Suc k) rest s = Some s'" by simp
    from Cons.IH[OF this Cons.prems(2)] show ?thesis .
  next
    case (Some operand)
    show ?thesis
    proof (cases operand)
      case (STACK_SLOT i)
      with Some Cons.prems(1) have "TryAllocateToInput_loop phi owner (Suc k) rest s = Some s'" by simp
      from Cons.IH[OF this Cons.prems(2)] show ?thesis .
    next
      case (REGISTER c)
      with Some Cons.prems(1) have c: "c < length (register_values s)"
        by (auto simp: kAllocatableGeneralRegisterCount_def split: if_splits option.splits)
      show ?thesis
      proof (cases "register_values s ! c = None")
        case False
        with Some REGISTER c Cons.prems(1)
        have "TryAllocateToInput_loop phi owner (Suc k) rest s = Some s'"
          by (simp add: kAllocatableGeneralRegisterCount_def)
        from Cons.IH[OF this Cons.prems(2)] show ?thesis .
      next
        case True
        with Some REGISTER c Cons.prems(1) obtain allocated s1 where
          da: "DoAllocate (Reg c) phi s = Some (allocated, s1)" and
          s': "s' = trace (TracePhi ''reuse'' (node_id phi) (Some (REGISTER c)))
                         (SetAllocated_result phi allocated s1)"
          by (auto simp: kAllocatableGeneralRegisterCount_def bind_eq_Some_conv)
        from DoAllocate_effect[OF da] have "SetRegister (Reg c) phi s = Some s1" by simp
        from SetRegister_consistent[OF this Cons.prems(2)] True have "consistent s1" by simp
        with s' show ?thesis by simp
      qed
    qed
  qed
qed

lemma phis_to_inputs_consistent:
  "phis_to_inputs ps s = Some s' \<Longrightarrow> consistent s \<Longrightarrow> consistent s'"
proof (induction ps arbitrary: s)
  case Nil
  then show ?case by simp
next
  case (Cons phi rest)
  from Cons.prems(1) obtain s1 where
    a: "TryAllocateToInput phi (MakeLive (phi_node phi) (SetNoSpillOrHint (phi_node phi) s)) = Some s1"
    and b: "phis_to_inputs rest s1 = Some s'"
    by (auto simp: bind_eq_Some_conv)
  have "consistent (SetNoSpillOrHint (phi_node phi) s)"
    using Cons.prems(2) consistent_cong[of "SetNoSpillOrHint (phi_node phi) s" s] by simp
  from MakeLive_consistent[OF this, of "phi_node phi"]
  have "consistent (MakeLive (phi_node phi) (SetNoSpillOrHint (phi_node phi) s))"
    using consistent_cong[of "SetNoSpillOrHint (phi_node phi) (MakeLive (phi_node phi) (SetNoSpillOrHint (phi_node phi) s))"
                             "MakeLive (phi_node phi) (SetNoSpillOrHint (phi_node phi) s)"]
    by simp
  from TryAllocateToInput_loop_consistent[OF a[unfolded TryAllocateToInput_def] this]
  have "consistent s1" .
  from Cons.IH[OF b this] show ?case .
qed

lemma phis_to_registers_consistent:
  "phis_to_registers ps s = Some s' \<Longrightarrow> consistent s \<Longrightarrow> consistent s'"
proof (induction ps arbitrary: s)
  case Nil
  then show ?case by simp
next
  case (Cons phi rest)
  show ?case
  proof (cases "result_allocated s (phi_node phi) \<noteq> None")
    case True
    with Cons.prems(1) have "phis_to_registers rest s = Some s'" by simp
    from Cons.IH[OF this Cons.prems(2)] show ?thesis .
  next
    case False
    with Cons.prems(1) obtain allocation s1 where
      a: "TryAllocateRegister (phi_node phi) s = Some (allocation, s1)" and
      b: "(case allocation of
           None \<Rightarrow> phis_to_registers rest s1
         | Some operand \<Rightarrow>
             phis_to_registers rest
               (trace (TracePhi ''new reg'' (node_id (phi_node phi)) (Some operand))
                  (SetAllocated_result (phi_node phi) operand s1))) = Some s'"
      by (auto simp: bind_eq_Some_conv)
    from TryAllocateRegister_consistent[OF a Cons.prems(2)] have c1: "consistent s1" .
    show ?thesis
    proof (cases allocation)
      case None
      with b have "phis_to_registers rest s1 = Some s'" by simp
      from Cons.IH[OF this c1] show ?thesis .
    next
      case (Some operand)
      with b have "phis_to_registers rest
               (trace (TracePhi ''new reg'' (node_id (phi_node phi)) (Some operand))
                  (SetAllocated_result (phi_node phi) operand s1)) = Some s'" by simp
      from Cons.IH[OF this] c1 show ?thesis by simp
    qed
  qed
qed

lemma AllocateSpillSlot_consistent:
  assumes "AllocateSpillSlot p s = Some s'" and cons: "consistent s"
  shows "consistent s'"
proof -
  from AllocateSpillSlot_effect[OF assms(1)] obtain info i where
    rv: "register_values s' = register_values s" and
    info: "values_tbl s p = Some info" and
    tbl: "values_tbl s' = (values_tbl s)(p \<mapsto> info\<lparr>stack_slot := Some i\<rparr>)"
    by blast
  show ?thesis
  proof (rule consistentI)
    fix v vinfo r
    assume a: "values_tbl s' v = Some vinfo" "reg vinfo = Reg r"
    show "r < length (register_values s') \<and> register_values s' ! r = Some v"
    proof (cases "v = p")
      case True
      with a tbl have "reg info = Reg r" by auto
      from consistent_reg[OF cons info this] rv True show ?thesis by simp
    next
      case False
      with a tbl have "values_tbl s v = Some vinfo" by simp
      from consistent_reg[OF cons this a(2)] rv show ?thesis by simp
    qed
  next
    fix v vinfo
    assume a: "values_tbl s' v = Some vinfo"
    show "node vinfo = v"
    proof (cases "v = p")
      case True
      with a tbl consistent_node[OF cons info] show ?thesis by auto
    next
      case False
      with a tbl have "values_tbl s v = Some vinfo" by simp
      from consistent_node[OF cons this] show ?thesis .
    qed
  qed
qed

lemma phis_to_stack_consistent:
  "phis_to_stack ps s = Some s' \<Longrightarrow> consistent s \<Longrightarrow> consistent s'"
proof (induction ps arbitrary: s)
  case Nil
  then show ?case by simp
next
  case (Cons phi rest)
  show ?case
  proof (cases "result_allocated s (phi_node phi) \<noteq> None")
    case True
    with Cons.prems(1) have "phis_to_stack rest s = Some s'" by simp
    from Cons.IH[OF this Cons.prems(2)] show ?thesis .
  next
    case False
    with Cons.prems(1) obtain s1 slot where
      a: "AllocateSpillSlot (phi_node phi) s = Some s1" and
      b: "phis_to_stack rest
          (trace (TracePhi ''stack'' (node_id (phi_node phi)) (Some (STACK_SLOT slot)))
             (SetAllocated_result (phi_node phi) (STACK_SLOT slot) s1)) = Some s'"
      by (auto simp: bind_eq_Some_conv)
    from Cons.IH[OF b] AllocateSpillSlot_consistent[OF a Cons.prems(2)] show ?thesis by simp
  qed
qed

lemma activate_phis_consistent:
  assumes "activate_phis ps s = Some s'" and "consistent s"
  shows "consistent s'"
proof -
  from assms(1) obtain s1 s2 s3 where
    a: "phis_to_inputs ps s = Some s1" and b: "phis_to_registers ps s1 = Some s2" and
    c: "phis_to_stack ps s2 = Some s3" and d: "s' = trace (PrintLiveRegs s3) s3"
    by (auto simp: activate_phis_def bind_eq_Some_conv)
  from phis_to_stack_consistent[OF c phis_to_registers_consistent[OF b
         phis_to_inputs_consistent[OF a assms(2)]]] d
  show ?thesis by simp
qed

lemma trace_block_consistent:
  assumes "trace_block g bi s = Some s'" and "consistent s"
  shows "consistent s'"
  using assms by (auto simp: trace_block_def bind_eq_Some_conv split: if_splits)

lemma consistent_cursor [simp]:
  "consistent (s\<lparr>block_it := bi\<rparr>) = consistent s"
  "consistent (s\<lparr>node_it := ni\<rparr>) = consistent s"
  by (rule consistent_cong; simp)+

lemma start_consistent:
  "consistent ((initial_allocator N flag)\<lparr>register_state := states\<rparr>)"
  by (simp add: consistent_def registers_agree_def records_describe_keys_def initial_allocator_def)

lemma reachable_consistent:
  assumes "reachable g s"
  shows "consistent s"
  using assms
proof (induction rule: reachable.induct)
  case start
  show ?case by (rule start_consistent)
next
  case (cursor s bi ni)
  then show ?case by simp
next
  case (printed s e)
  then show ?case by simp
next
  case (restore s target_state s')
  from InitializeRegisterValues_consistent[OF restore(2) restore(3)] show ?case .
next
  case (traced s bi s')
  from trace_block_consistent[OF traced(2) traced(3)] show ?case .
next
  case (phis s ps s')
  from activate_phis_consistent[OF phis(2) phis(3)] show ?case .
next
  case (node s n s')
  from AllocateNode_preserves_consistent[OF node(2) node(3)] show ?case .
next
  case (control s n block s')
  from AllocateControlNode_consistent[OF control(2) control(3)] show ?case .
qed

lemma AllocateNodes_reachable:
  "AllocateNodes ns s = Some s' \<Longrightarrow> reachable g s \<Longrightarrow> reachable g s'"
proof (induction ns arbitrary: s)
  case Nil
  then show ?case by simp
next
  case (Cons n rest)
  from Cons.prems(1) obtain s1 where
    a: "AllocateNode n (s\<lparr>node_it := Some (nd_id n)\<rparr>) = Some s1" and
    b: "AllocateNodes rest s1 = Some s'"
    by (auto split: option.splits)
  from reachable.cursor[OF Cons.prems(2), where bi = "block_it s" and ni = "Some (nd_id n)"]
  have "reachable g (s\<lparr>node_it := Some (nd_id n)\<rparr>)" by simp
  from Cons.IH[OF b reachable.node[OF this a]] show ?case .
qed

lemma AllocateBlock_reachable:
  assumes run: "AllocateBlock g bi s = Some s'" and r: "reachable g s"
  shows "reachable g s'"
proof -
  from run obtain block s1 s2 s3 s4 where
    block: "block_at g bi = Some block" and
    1: "(case register_state (s\<lparr>block_it := bi\<rparr>) bi of
              None \<Rightarrow> Some (s\<lparr>block_it := bi\<rparr>)
            | Some target_state \<Rightarrow> InitializeRegisterValues target_state (s\<lparr>block_it := bi\<rparr>)) = Some s1" and
    2: "trace_block g bi s1 = Some s2" and
    3: "(if phis block \<noteq> [] then activate_phis (phis block) s2 else Some s2) = Some s3" and
    4: "AllocateNodes (nodes block) s3 = Some s4" and
    5: "AllocateControlNode g (control_node block) block (s4\<lparr>node_it := None\<rparr>) = Some s'"
    by (auto simp: AllocateBlock_def bind_eq_Some_conv Let_def)
  from reachable.cursor[OF r, where bi = bi and ni = "node_it s"] have r0: "reachable g (s\<lparr>block_it := bi\<rparr>)" by simp
  have r1: "reachable g s1"
    using 1 r0 by (auto split: option.splits intro: reachable.restore)
  have r2: "reachable g s2" by (rule reachable.traced[OF r1 2])
  have r3: "reachable g s3"
    using 3 r2 by (auto split: if_splits intro: reachable.phis)
  have r4: "reachable g s4" by (rule AllocateNodes_reachable[OF 4 r3])
  from reachable.cursor[OF r4, where bi = "block_it s4" and ni = None] have "reachable g (s4\<lparr>node_it := None\<rparr>)" by simp
  from reachable.control[OF this 5] show ?thesis .
qed

lemma AllocateBlocks_reachable:
  "AllocateBlocks g bis s = Some s' \<Longrightarrow> reachable g s \<Longrightarrow> reachable g s'"
proof (induction bis arbitrary: s)
  case Nil
  then show ?case by simp
next
  case (Cons bi rest)
  from Cons.prems(1) obtain s1 where
    a: "AllocateBlock g bi s = Some s1" and b: "AllocateBlocks g rest s1 = Some s'"
    by (auto split: option.splits)
  from Cons.IH[OF b AllocateBlock_reachable[OF a Cons.prems(2)]] show ?case .
qed

lemma AllocateRegisters_reachable:
  assumes "AllocateRegisters g s = Some s'" and "reachable g s"
  shows "reachable g s'"
  using AllocateBlocks_reachable[OF assms(1)[unfolded AllocateRegisters_def]
          reachable.printed[OF assms(2)]] .

text \<open>
  Claim C8, amended. In every state that a run of the allocator reaches from a fresh
  allocator, that is after the restore of a merge point, after the activation of the phis of
  a block, after each node and after each control node, every record whose register field is
  set is the entry of that register in the register file.
\<close>

theorem record_register_agreement_preserved:
  assumes "reachable g s"
  shows "registers_agree s"
  using reachable_consistent[OF assms] by (simp add: consistent_def)

theorem record_register_agreement_preserved_witness:
  "(\<exists>s'. AllocateRegisters phi_graph (phi_start False) = Some s'
        \<and> reachable phi_graph s' \<and> registers_agree s')
   \<and> (\<exists>s'. AllocateNode (def_node 1 5) (initial_allocator 4 False)
               \<bind> AllocateNode (plain_node 2 [use_of (value_node 1 5) (EXTENDED_POLICY FIXED_REGISTER 1)])
             = Some s'
          \<and> register_values s' = [Some (value_node 1 5), Some (value_node 1 5), None, None]
          \<and> reachable phi_graph s' \<and> registers_agree s')"
proof -
  have init: "(initial_allocator 4 False)\<lparr>register_state := Map.empty\<rparr> = initial_allocator 4 False"
    by (simp add: initial_allocator_def)
  have r0: "reachable phi_graph (phi_start False)"
    unfolding phi_start_def by (rule reachable.start)
  have "case AllocateRegisters phi_graph (phi_start False) of None \<Rightarrow> False | Some s' \<Rightarrow> True"
    by code_simp
  then obtain s1 where run1: "AllocateRegisters phi_graph (phi_start False) = Some s1"
    by (auto split: option.splits)
  have r1: "reachable phi_graph s1" by (rule AllocateRegisters_reachable[OF run1 r0])
  have "case AllocateNode (def_node 1 5) (initial_allocator 4 False) of
          None \<Rightarrow> False
        | Some sa \<Rightarrow>
            (case AllocateNode
                    (plain_node 2 [use_of (value_node 1 5) (EXTENDED_POLICY FIXED_REGISTER 1)]) sa of
               None \<Rightarrow> False
             | Some sb \<Rightarrow>
                 register_values sb = [Some (value_node 1 5), Some (value_node 1 5), None, None])"
    by code_simp
  then obtain sa sb where
    a: "AllocateNode (def_node 1 5) (initial_allocator 4 False) = Some sa" and
    b: "AllocateNode (plain_node 2 [use_of (value_node 1 5) (EXTENDED_POLICY FIXED_REGISTER 1)]) sa
          = Some sb" and
    rv: "register_values sb = [Some (value_node 1 5), Some (value_node 1 5), None, None]"
    by (auto split: option.splits)
  have "reachable phi_graph (initial_allocator 4 False)"
    using reachable.start[where g = phi_graph and N = 4 and flag = False and states = Map.empty] init
    by simp
  from reachable.node[OF reachable.node[OF this a] b] have r2: "reachable phi_graph sb" .
  from record_register_agreement_preserved[OF r1] record_register_agreement_preserved[OF r2]
       run1 r1 r2 a b rv
  show ?thesis by simp
qed

subsection \<open>Merging into an entry that holds no record\<close>

lemma MergeRegisterValues_loop_untouched:
  "MergeRegisterValues_loop s c T pid is ts = Some ts' \<Longrightarrow>
     length ts' = length ts \<and> (\<forall>i. i \<notin> set is \<longrightarrow> ts' ! i = ts ! i)"
proof (induction "is" arbitrary: ts)
  case Nil
  then show ?case by simp
next
  case (Cons j rest)
  from Cons.prems obtain entry where
    e: "merge_entry s c T pid j (ts ! j) = Some entry" and
    r: "MergeRegisterValues_loop s c T pid rest (ts[j := entry]) = Some ts'"
    by (auto split: option.splits)
  from Cons.IH[OF r] show ?case by auto
qed

lemma MergeRegisterValues_loop_nth:
  "MergeRegisterValues_loop s c T pid is ts = Some ts' \<Longrightarrow> distinct is \<Longrightarrow> i \<in> set is
     \<Longrightarrow> i < length ts \<Longrightarrow> merge_entry s c T pid i (ts ! i) = Some (ts' ! i)"
proof (induction "is" arbitrary: ts)
  case Nil
  then show ?case by simp
next
  case (Cons j rest)
  from Cons.prems(1) obtain entry where
    e: "merge_entry s c T pid j (ts ! j) = Some entry" and
    r: "MergeRegisterValues_loop s c T pid rest (ts[j := entry]) = Some ts'"
    by (auto split: option.splits)
  show ?case
  proof (cases "i = j")
    case True
    with Cons.prems(2) have "i \<notin> set rest" by simp
    with MergeRegisterValues_loop_untouched[OF r] have "ts' ! i = (ts[j := entry]) ! i" by simp
    with True Cons.prems(4) e show ?thesis by simp
  next
    case False
    with Cons.prems have "distinct rest" "i \<in> set rest" "i < length (ts[j := entry])" by simp_all
    from Cons.IH[OF r this] False show ?thesis by simp
  qed
qed

text \<open>
  Claim C1, as stated, fails: \<^verbatim>\<open>MergeRegisterValues\<close> never writes an entry in the
  single-node encoding. At a merge point with two predecessors whose register state is
  initialized and holds no record at index 0, the second predecessor arrives with a spilled
  value, live at the target, in register 0. The entry becomes a \<^verbatim>\<open>RegisterMerge\<close> of that
  value.
\<close>

theorem merge_into_empty_entry_counterexample:
  "map_option is_initialized (target_entry 7 0 (merging_state (Some 0))) = Some True
   \<and> target_entry 7 0 (merging_state (Some 0)) = Some (NodeState None)
   \<and> register_values (merging_state (Some 0)) ! 0 = Some (value_node 1 11)
   \<and> IsLiveAtTarget (merging_state (Some 0)) (Some (value_node 1 11)) 5 merge_block = Some True
   \<and> MergeRegisterValues 5 (7, merge_block) 1 (merging_state (Some 0)) \<bind> target_entry 7 0
       = Some (MergeState \<lparr>merge_node = value_node 1 11,
                           operands = [STACK_SLOT 0, REGISTER 0]\<rparr>)"
  by code_simp

text \<open>
  Claim C1, amended. Let the register state of the target be initialized and hold no record at
  index \<open>i\<close>, and let the incoming register file hold at \<open>i\<close> a record that is live at the
  target. If the record has no stack slot, the entry is left as it is (the value is taken to
  be in another register of the target). Otherwise the entry becomes a \<^verbatim>\<open>RegisterMerge\<close>
  whose node is the record and whose operands are its stack slot for every predecessor but
  the merged one, whose operand is register \<open>i\<close>.
\<close>

theorem merge_into_empty_entry:
  assumes ts: "register_state s b = Some ts"
    and len: "length ts = length (register_values s)"
    and init: "is_initialized (ts ! 0)"
    and i: "i < length (register_values s)"
    and stored: "ts ! i = NodeState None"
    and incoming: "register_values s ! i = Some x" "values_tbl s x = Some xinfo"
    and live: "IsLiveAtTarget s (Some x) control_id target = Some True"
    and merge: "MergeRegisterValues control_id (b, target) pid s = Some s'"
  shows "target_entry b i s' =
           Some (case stack_slot xinfo of
                   None \<Rightarrow> NodeState None
                 | Some slot \<Rightarrow>
                     MergeState \<lparr>merge_node = x,
                                 operands = (replicate (predecessor_count target) (STACK_SLOT slot))
                                              [pid := REGISTER i]\<rparr>)"
proof -
  from i len obtain e0 rest where cons: "ts = e0 # rest" by (cases ts) auto
  with init have "is_initialized e0" by simp
  with merge ts cons obtain ts' where
    loop: "MergeRegisterValues_loop s control_id target pid
             [0..<kAllocatableGeneralRegisterCount s] ts = Some ts'"
    and s': "s' = s\<lparr>register_state := (register_state s)(b \<mapsto> ts')\<rparr>"
    by (auto simp: MergeRegisterValues_def bind_eq_Some_conv)
  have "merge_entry s control_id target pid i (ts ! i) = Some (ts' ! i)"
    using MergeRegisterValues_loop_nth[OF loop] i len
    by (simp add: kAllocatableGeneralRegisterCount_def)
  then have entry: "merge_entry s control_id target pid i (NodeState None) = Some (ts' ! i)"
    using stored by simp
  have "ts' ! i = (case stack_slot xinfo of
                   None \<Rightarrow> NodeState None
                 | Some slot \<Rightarrow>
                     MergeState \<lparr>merge_node = x,
                                 operands = (replicate (predecessor_count target) (STACK_SLOT slot))
                                              [pid := REGISTER i]\<rparr>)"
  proof (cases "stack_slot xinfo")
    case None
    with entry incoming live show ?thesis by (simp add: merge_entry_def)
  next
    case (Some slot)
    with entry incoming live show ?thesis
      by (auto simp: merge_entry_def set_operand_def split: if_splits)
  qed
  with s' show ?thesis by (simp add: target_entry_def)
qed

theorem merge_into_empty_entry_witness:
  "MergeRegisterValues 5 (7, merge_block) 1 (merging_state (Some 0)) \<bind> target_entry 7 0 =
     Some (MergeState \<lparr>merge_node = value_node 1 11,
                        operands = [STACK_SLOT 0, REGISTER 0]\<rparr>)"
proof -
  let ?s = "merging_state (Some 0)"
  let ?ts = "[NodeState None, NodeState None, NodeState None, NodeState None]"
  have "case MergeRegisterValues 5 (7, merge_block) 1 ?s of None \<Rightarrow> False | Some s' \<Rightarrow> True"
    by code_simp
  then obtain s' where run: "MergeRegisterValues 5 (7, merge_block) 1 ?s = Some s'"
    by (auto split: option.splits)
  have h1: "register_state ?s 7 = Some ?ts"
    by (simp add: merging_state_def one_resident_def initial_allocator_def)
  have h2: "length ?ts = length (register_values ?s)"
    by (simp add: merging_state_def one_resident_def initial_allocator_def)
  have h3: "is_initialized (?ts ! 0)" by simp
  have h4: "0 < length (register_values ?s)"
    by (simp add: merging_state_def one_resident_def initial_allocator_def)
  have h5: "?ts ! 0 = NodeState None" by simp
  have h6: "register_values ?s ! 0 = Some (value_node 1 11)"
    by (simp add: merging_state_def one_resident_def initial_allocator_def)
  have h7: "values_tbl ?s (value_node 1 11) = Some (resident_info (value_node 1 11) (Some 0) 0)"
    by (simp add: merging_state_def one_resident_def initial_allocator_def)
  have h8: "IsLiveAtTarget ?s (Some (value_node 1 11)) 5 merge_block = Some True"
    by code_simp
  from merge_into_empty_entry[OF h1 h2 h3 h4 h5 h6 h7 h8 run] run
  show ?thesis
    by (simp add: resident_info_def merge_block_def return_block_def numeral_2_eq_2)
qed

subsection \<open>The trace flag\<close>

text \<open>
  Every function of the allocator commutes with the erasure of the trace: run from the erased
  state, it returns the erasure of what it returns from the state itself.
\<close>

lemma erase_fields [simp]:
  "register_values (erase_trace s) = register_values s"
  "values_tbl (erase_trace s) = values_tbl s"
  "free_slots (erase_trace s) = free_slots s"
  "top_of_stack (erase_trace s) = top_of_stack s"
  "block_it (erase_trace s) = block_it s"
  "node_it (erase_trace s) = node_it s"
  "input_allocated (erase_trace s) = input_allocated s"
  "result_allocated (erase_trace s) = result_allocated s"
  "node_spill (erase_trace s) = node_spill s"
  "temporaries (erase_trace s) = temporaries s"
  "register_state (erase_trace s) = register_state s"
  "gap_moves (erase_trace s) = gap_moves s"
  "trace_regalloc (erase_trace s) = False"
  "os (erase_trace s) = []"
  "kAllocatableGeneralRegisterCount (erase_trace s) = kAllocatableGeneralRegisterCount s"
  by (simp_all add: erase_trace_def kAllocatableGeneralRegisterCount_def)

lemma erase_updates [simp]:
  "(erase_trace s)\<lparr>register_values := a\<rparr> = erase_trace (s\<lparr>register_values := a\<rparr>)"
  "(erase_trace s)\<lparr>values_tbl := b\<rparr> = erase_trace (s\<lparr>values_tbl := b\<rparr>)"
  "(erase_trace s)\<lparr>free_slots := c\<rparr> = erase_trace (s\<lparr>free_slots := c\<rparr>)"
  "(erase_trace s)\<lparr>top_of_stack := d\<rparr> = erase_trace (s\<lparr>top_of_stack := d\<rparr>)"
  "(erase_trace s)\<lparr>block_it := e\<rparr> = erase_trace (s\<lparr>block_it := e\<rparr>)"
  "(erase_trace s)\<lparr>node_it := f\<rparr> = erase_trace (s\<lparr>node_it := f\<rparr>)"
  "(erase_trace s)\<lparr>input_allocated := h\<rparr> = erase_trace (s\<lparr>input_allocated := h\<rparr>)"
  "(erase_trace s)\<lparr>result_allocated := i\<rparr> = erase_trace (s\<lparr>result_allocated := i\<rparr>)"
  "(erase_trace s)\<lparr>node_spill := j\<rparr> = erase_trace (s\<lparr>node_spill := j\<rparr>)"
  "(erase_trace s)\<lparr>temporaries := k\<rparr> = erase_trace (s\<lparr>temporaries := k\<rparr>)"
  "(erase_trace s)\<lparr>register_state := l\<rparr> = erase_trace (s\<lparr>register_state := l\<rparr>)"
  "(erase_trace s)\<lparr>gap_moves := m\<rparr> = erase_trace (s\<lparr>gap_moves := m\<rparr>)"
  by (simp_all add: erase_trace_def)

lemma erase_flag [simp]:
  "erase_trace (s\<lparr>trace_regalloc := n\<rparr>) = erase_trace s"
  "erase_trace (s\<lparr>os := q\<rparr>) = erase_trace s"
  by (simp_all add: erase_trace_def)

lemma PrintLiveRegs_erase [simp]: "PrintLiveRegs (erase_trace s) = PrintLiveRegs s"
  by (simp add: PrintLiveRegs_def cong: option.case_cong)

lemma erase_helpers [simp]:
  "erase_trace (trace ev s) = erase_trace s"
  "trace ev (erase_trace s) = erase_trace s"
  "set_info p info (erase_trace s) = erase_trace (set_info p info s)"
  "AddMoveBeforeCurrentNode a b (erase_trace s) = erase_trace (AddMoveBeforeCurrentNode a b s)"
  "MakeLive v (erase_trace s) = erase_trace (MakeLive v s)"
  "SetNoSpillOrHint v (erase_trace s) = erase_trace (SetNoSpillOrHint v s)"
  "SetAllocated_result v operand (erase_trace s) = erase_trace (SetAllocated_result v operand s)"
  by (simp_all add: trace_def set_info_def AddMoveBeforeCurrentNode_def MakeLive_def
                    SetNoSpillOrHint_def SetAllocated_result_def)

lemma trace_floats [simp]:
  "(trace ev s)\<lparr>register_values := a\<rparr> = trace ev (s\<lparr>register_values := a\<rparr>)"
  "(trace ev s)\<lparr>values_tbl := b\<rparr> = trace ev (s\<lparr>values_tbl := b\<rparr>)"
  "(trace ev s)\<lparr>free_slots := c\<rparr> = trace ev (s\<lparr>free_slots := c\<rparr>)"
  "(trace ev s)\<lparr>top_of_stack := d\<rparr> = trace ev (s\<lparr>top_of_stack := d\<rparr>)"
  "(trace ev s)\<lparr>block_it := e\<rparr> = trace ev (s\<lparr>block_it := e\<rparr>)"
  "(trace ev s)\<lparr>node_it := f\<rparr> = trace ev (s\<lparr>node_it := f\<rparr>)"
  "(trace ev s)\<lparr>input_allocated := h\<rparr> = trace ev (s\<lparr>input_allocated := h\<rparr>)"
  "(trace ev s)\<lparr>result_allocated := i\<rparr> = trace ev (s\<lparr>result_allocated := i\<rparr>)"
  "(trace ev s)\<lparr>node_spill := j\<rparr> = trace ev (s\<lparr>node_spill := j\<rparr>)"
  "(trace ev s)\<lparr>temporaries := k\<rparr> = trace ev (s\<lparr>temporaries := k\<rparr>)"
  "(trace ev s)\<lparr>register_state := l\<rparr> = trace ev (s\<lparr>register_state := l\<rparr>)"
  "(trace ev s)\<lparr>gap_moves := m\<rparr> = trace ev (s\<lparr>gap_moves := m\<rparr>)"
  "AddMoveBeforeCurrentNode x y (trace ev s) = trace ev (AddMoveBeforeCurrentNode x y s)"
  "SetAllocated_result v operand (trace ev s) = trace ev (SetAllocated_result v operand s)"
  by (simp_all add: trace_def AddMoveBeforeCurrentNode_def SetAllocated_result_def)

lemma erase_Update:
  "UpdateInputUseAndClearDead use input (erase_trace s)
     = map_option erase_trace (UpdateInputUseAndClearDead use input s)"
  by (simp add: UpdateInputUseAndClearDead_def Let_def split: option.split)

lemma erase_UpdateInputs:
  "UpdateInputs use ins (erase_trace s) = map_option erase_trace (UpdateInputs use ins s)"
  by (induction ins arbitrary: s) (simp_all add: erase_Update split: option.split)

lemma erase_AllocateSpillSlot:
  "AllocateSpillSlot p (erase_trace s) = map_option erase_trace (AllocateSpillSlot p s)"
  by (simp add: AllocateSpillSlot_def split: option.split list.split)

lemma erase_Spill:
  "Spill p (erase_trace s) = map_option erase_trace (Spill p s)"
  by (simp add: Spill_def erase_AllocateSpillSlot Let_def bind_map_option map_option_bind comp_def
           split: option.split)

lemma erase_SpillRegisters_loop:
  "SpillRegisters_loop is (erase_trace s) = map_option erase_trace (SpillRegisters_loop is s)"
  by (induction "is" arbitrary: s) (simp_all add: erase_Spill split: option.split)

lemma erase_SpillAndClear_loop:
  "SpillAndClearRegisters_loop is (erase_trace s)
     = map_option erase_trace (SpillAndClearRegisters_loop is s)"
  by (induction "is" arbitrary: s) (simp_all add: erase_Spill split: option.split)

lemma erase_SetRegister:
  "SetRegister r p (erase_trace s) = map_option erase_trace (SetRegister r p s)"
  by (simp add: SetRegister_def bind_map_option map_option_bind comp_def
           split: option.split Option.bind_split)

lemma erase_DoAllocate:
  "DoAllocate r p (erase_trace s) = map_option (apsnd erase_trace) (DoAllocate r p s)"
  by (simp add: DoAllocate_def erase_SetRegister bind_map_option map_option_bind comp_def
           split: Option.bind_split)

lemma erase_TryAllocateRegister:
  "TryAllocateRegister p (erase_trace s)
     = map_option (apsnd erase_trace) (TryAllocateRegister p s)"
  by (simp add: TryAllocateRegister_def erase_SetRegister bind_map_option map_option_bind comp_def
           split: option.split Option.bind_split)

lemma erase_Free:
  "Free r try_move (erase_trace s) = map_option erase_trace (Free r try_move s)"
  by (simp add: Free_def erase_SetRegister erase_Spill Let_def bind_map_option map_option_bind comp_def
           split: option.split Option.bind_split move_search.split)

lemma erase_ForceAllocate:
  "ForceAllocate r p try_move (erase_trace s)
     = map_option (apsnd erase_trace) (ForceAllocate r p try_move s)"
  by (simp add: ForceAllocate_def erase_Free erase_DoAllocate bind_map_option map_option_bind comp_def
           split: option.split Option.bind_split)

lemma erase_furthest_loop:
  "furthest_loop (erase_trace s) is f = furthest_loop s is f"
  by (induction "is" arbitrary: f) simp_all

lemma erase_AllocateRegister:
  "AllocateRegister p (erase_trace s) = map_option (apsnd erase_trace) (AllocateRegister p s)"
  by (simp add: AllocateRegister_def erase_TryAllocateRegister erase_ForceAllocate
                erase_furthest_loop bind_map_option map_option_bind comp_def
           split: option.split Option.bind_split prod.split)

lemma erase_scan_furthest:
  "scan_furthest (erase_trace s) is acc = scan_furthest s is acc"
  by (induction s "is" acc rule: scan_furthest.induct) (simp_all split: option.split)

lemma erase_evict_loop:
  "evict_loop count acc fr (erase_trace s)
     = map_option (apsnd erase_trace) (evict_loop count acc fr s)"
proof (induction count arbitrary: acc fr s)
  case 0
  then show ?case by simp
next
  case (Suc count)
  show ?case
    by (simp add: erase_scan_furthest erase_Free Suc.IH bind_map_option map_option_bind comp_def
             split: option.split Option.bind_split prod.split)
qed

lemma erase_GetFreeRegisters:
  "GetFreeRegisters count (erase_trace s)
     = map_option (apsnd erase_trace) (GetFreeRegisters count s)"
  by (simp add: GetFreeRegisters_def erase_evict_loop bind_map_option map_option_bind comp_def
           split: option.split Option.bind_split prod.split)

lemma erase_AssignTemporaries:
  "AssignTemporaries n (erase_trace s) = map_option erase_trace (AssignTemporaries n s)"
  by (simp add: AssignTemporaries_def erase_GetFreeRegisters bind_map_option map_option_bind comp_def
           split: option.split Option.bind_split prod.split)

lemma erase_AssignInput:
  "AssignInput key input (erase_trace s) = map_option erase_trace (AssignInput key input s)"
proof (cases "input_operand input")
  case (FIXED_SLOT i)
  then show ?thesis by (simp add: AssignInput_def)
next
  case (EXTENDED_POLICY policy idx)
  show ?thesis
  proof (cases "values_tbl s (input_node input)")
    case None
    with EXTENDED_POLICY show ?thesis by (simp add: AssignInput_def)
  next
    case (Some info)
    show ?thesis
    proof (cases "allocation info")
      case None
      with EXTENDED_POLICY Some show ?thesis by (simp add: AssignInput_def)
    next
      case loc: (Some location)
      show ?thesis
        using EXTENDED_POLICY Some loc
        by (cases policy)
           (simp_all add: AssignInput_def erase_ForceAllocate erase_AllocateRegister Let_def
                          bind_map_option map_option_bind comp_def split_def
                          if_distrib[of erase_trace]
                    cong: if_cong)
    qed
  qed
qed

lemma erase_AssignInputs:
  "AssignInputs owner k ins (erase_trace s) = map_option erase_trace (AssignInputs owner k ins s)"
  by (induction ins arbitrary: k s) (simp_all add: erase_AssignInput split: option.split)

lemma erase_SpillRegisters:
  "SpillRegisters (erase_trace s) = map_option erase_trace (SpillRegisters s)"
  by (simp add: SpillRegisters_def erase_SpillRegisters_loop)

lemma erase_SpillAndClearRegisters:
  "SpillAndClearRegisters (erase_trace s) = map_option erase_trace (SpillAndClearRegisters s)"
  by (simp add: SpillAndClearRegisters_def erase_SpillAndClear_loop)

lemma erase_AllocateNodeResult:
  "AllocateNodeResult n (erase_trace s) = map_option erase_trace (AllocateNodeResult n s)"
proof (cases "Cast_ValueNode n")
  case None
  then show ?thesis by (simp add: AllocateNodeResult_def)
next
  case (Some v)
  show ?thesis
  proof (cases "result_policy n")
    case None
    with Some show ?thesis by (simp add: AllocateNodeResult_def)
  next
    case op: (Some operand)
    show ?thesis
    proof (cases operand)
      case (FIXED_SLOT i)
      with Some op show ?thesis
        by (simp add: AllocateNodeResult_def Let_def bind_map_option map_option_bind comp_def
                 split: option.split)
    next
      case (EXTENDED_POLICY policy idx)
      with Some op show ?thesis
        by (cases policy)
           (simp_all add: AllocateNodeResult_def erase_ForceAllocate erase_AllocateRegister Let_def
                          bind_map_option map_option_bind comp_def split_def)
    qed
  qed
qed

lemma erase_AllocateNode:
  "AllocateNode n (erase_trace s) = map_option erase_trace (AllocateNode n s)"
  by (simp add: AllocateNode_def erase_AssignInputs erase_AssignTemporaries erase_UpdateInputs
                erase_SpillRegisters erase_SpillAndClearRegisters erase_AllocateNodeResult
                bind_map_option map_option_bind comp_def
           split: Option.bind_split)

lemma erase_IsLiveAtTarget:
  "IsLiveAtTarget (erase_trace s) p source_id target = IsLiveAtTarget s p source_id target"
  by (simp add: IsLiveAtTarget_def cong: option.case_cong)

lemma erase_InitializeBranchTarget_loop:
  "InitializeBranchTarget_loop (erase_trace s) source_id target is ts
     = InitializeBranchTarget_loop s source_id target is ts"
  by (induction "is" arbitrary: ts)
     (simp_all add: erase_IsLiveAtTarget cong: option.case_cong if_cong)

lemma erase_InitializeBranchTargetRegisterValues:
  "InitializeBranchTargetRegisterValues source_id tgt (erase_trace s)
     = map_option erase_trace (InitializeBranchTargetRegisterValues source_id tgt s)"
  by (simp add: InitializeBranchTargetRegisterValues_def erase_InitializeBranchTarget_loop
                bind_map_option map_option_bind comp_def
           split: option.split)

lemma erase_merge_entry:
  "merge_entry (erase_trace s) control_id target pred_id i entry
     = merge_entry s control_id target pred_id i entry"
  by (simp add: merge_entry_def erase_IsLiveAtTarget Let_def
           cong: option.case_cong if_cong prod.case_cong Option.bind_cong)

lemma erase_MergeRegisterValues_loop:
  "MergeRegisterValues_loop (erase_trace s) control_id target pred_id is ts
     = MergeRegisterValues_loop s control_id target pred_id is ts"
  by (induction "is" arbitrary: ts) (simp_all add: erase_merge_entry cong: option.case_cong)

lemma erase_MergeRegisterValues:
  "MergeRegisterValues control_id tgt pred_id (erase_trace s)
     = map_option erase_trace (MergeRegisterValues control_id tgt pred_id s)"
  by (simp add: MergeRegisterValues_def erase_MergeRegisterValues_loop
                erase_InitializeBranchTargetRegisterValues
                bind_map_option map_option_bind comp_def
           split: option.split list.split)

lemma erase_clear_registers_loop:
  "clear_registers_loop is (erase_trace s) = map_option erase_trace (clear_registers_loop is s)"
  by (induction "is" arbitrary: s) (simp_all split: option.split)

lemma erase_fill_registers_loop:
  "fill_registers_loop ts is (erase_trace s) = map_option erase_trace (fill_registers_loop ts is s)"
  by (induction "is" arbitrary: s) (simp_all split: option.split)

lemma erase_InitializeRegisterValues:
  "InitializeRegisterValues ts (erase_trace s) = map_option erase_trace (InitializeRegisterValues ts s)"
  by (simp add: InitializeRegisterValues_def erase_clear_registers_loop erase_fill_registers_loop
                bind_map_option map_option_bind comp_def)

lemma erase_clear_dead_loop:
  "clear_dead_loop source_id target is (erase_trace s)
     = map_option erase_trace (clear_dead_loop source_id target is s)"
  by (induction "is" arbitrary: s)
     (simp_all add: erase_IsLiveAtTarget split: option.split bool.split)

lemma erase_has_state: "has_state (erase_trace s) b = has_state s b"
  by (simp add: has_state_def)

lemma erase_InitializeConditionalBranchRegisters:
  "InitializeConditionalBranchRegisters g node_ident t (erase_trace s)
     = map_option erase_trace (InitializeConditionalBranchRegisters g node_ident t s)"
proof (cases "block_at g t")
  case None
  then show ?thesis by (simp add: InitializeConditionalBranchRegisters_def)
next
  case (Some target)
  show ?thesis
  proof (cases "is_empty_block target")
    case True
    with Some show ?thesis
      by (cases "kind (control_node target)")
         (simp_all add: InitializeConditionalBranchRegisters_def erase_MergeRegisterValues
                   split: Option.bind_split)
  next
    case False
    with Some show ?thesis
      by (simp add: InitializeConditionalBranchRegisters_def
                    erase_InitializeBranchTargetRegisterValues erase_clear_dead_loop erase_has_state)
  qed
qed

lemma erase_inject_phis:
  "inject_phis pred_id ps (erase_trace s) = map_option erase_trace (inject_phis pred_id ps s)"
  by (induction ps arbitrary: s) (simp_all split: Option.bind_split)

lemma erase_update_phi_uses:
  "update_phi_uses use pred_id ps (erase_trace s)
     = map_option erase_trace (update_phi_uses use pred_id ps s)"
  by (induction ps arbitrary: s)
     (simp_all add: erase_Update bind_map_option map_option_bind comp_def split: Option.bind_split)

lemma erase_AllocateControlNode:
  "AllocateControlNode g n block (erase_trace s)
     = map_option erase_trace (AllocateControlNode g n block s)"
  by (cases "kind n")
     (simp_all add: AllocateControlNode_def erase_AssignInputs erase_AssignTemporaries
                erase_UpdateInputs erase_SpillRegisters erase_SpillAndClearRegisters
                erase_inject_phis erase_update_phi_uses erase_MergeRegisterValues
                erase_InitializeConditionalBranchRegisters
                bind_map_option map_option_bind comp_def
           split: Option.bind_split)

lemma erase_TryAllocateToInput_loop:
  "TryAllocateToInput_loop phi owner k ins (erase_trace s)
     = map_option erase_trace (TryAllocateToInput_loop phi owner k ins s)"
  by (induction ins arbitrary: k s)
     (simp_all add: erase_DoAllocate bind_map_option map_option_bind comp_def split_def
               split: option.split AllocatedOperand.split)

lemma erase_phis_to_inputs:
  "phis_to_inputs ps (erase_trace s) = map_option erase_trace (phis_to_inputs ps s)"
  by (induction ps arbitrary: s)
     (simp_all add: TryAllocateToInput_def erase_TryAllocateToInput_loop
                    bind_map_option map_option_bind comp_def)

lemma trace_erase_pull: "trace ev (erase_trace s) = erase_trace (trace ev s)"
  by simp

lemma erase_phis_to_registers:
  "phis_to_registers ps (erase_trace s) = map_option erase_trace (phis_to_registers ps s)"
proof (induction ps arbitrary: s)
  case Nil
  then show ?case by simp
next
  case (Cons phi ps)
  show ?case
    by (simp add: erase_TryAllocateRegister Cons.IH trace_erase_pull
                  bind_map_option map_option_bind comp_def split_def
             del: erase_helpers(1,2)
             split: Option.bind_split option.split)
qed

lemma erase_phis_to_stack:
  "phis_to_stack ps (erase_trace s) = map_option erase_trace (phis_to_stack ps s)"
proof (induction ps arbitrary: s)
  case Nil
  then show ?case by simp
next
  case (Cons phi ps)
  show ?case
    by (simp add: erase_AllocateSpillSlot Cons.IH trace_erase_pull
                  bind_map_option map_option_bind comp_def
             del: erase_helpers(1,2)
             split: Option.bind_split)
qed

lemma erase_activate_phis:
  "activate_phis ps (erase_trace s) = map_option erase_trace (activate_phis ps s)"
  by (simp add: activate_phis_def erase_phis_to_inputs erase_phis_to_registers erase_phis_to_stack
                bind_map_option map_option_bind comp_def)

lemma erase_AllocateNodes:
  "AllocateNodes ns (erase_trace s) = map_option erase_trace (AllocateNodes ns s)"
  by (induction ns arbitrary: s) (simp_all add: erase_AllocateNode split: option.split)

lemma erase_trace_drop: "erase_trace (trace ev s) = erase_trace s"
  by simp

lemma erase_trace_block:
  assumes "print_holes g bi \<noteq> None"
  shows "trace_block g bi (erase_trace s) = map_option erase_trace (trace_block g bi s)"
  using assms by (auto simp: trace_block_def)

lemma erase_AllocateBlock:
  assumes "print_holes g bi \<noteq> None"
  shows "AllocateBlock g bi (erase_trace s) = map_option erase_trace (AllocateBlock g bi s)"
proof (cases "block_at g bi")
  case None
  then show ?thesis by (simp add: AllocateBlock_def)
next
  case (Some block)
  have init: "(case stored of
              None \<Rightarrow> Some (erase_trace x)
            | Some target_state \<Rightarrow> InitializeRegisterValues target_state (erase_trace x))
        = map_option erase_trace
            (case stored of
              None \<Rightarrow> Some x
            | Some target_state \<Rightarrow> InitializeRegisterValues target_state x)" for x stored
    by (simp add: erase_InitializeRegisterValues split: option.split)
  have phi: "(if phis block \<noteq> [] then activate_phis (phis block) (erase_trace x)
              else Some (erase_trace x))
        = map_option erase_trace
            (if phis block \<noteq> [] then activate_phis (phis block) x else Some x)" for x
    by (simp add: erase_activate_phis)
  show ?thesis
    using Some
    by (simp add: AllocateBlock_def Let_def init phi erase_trace_block[OF assms]
                  erase_AllocateNodes erase_AllocateControlNode
                  bind_map_option map_option_bind comp_def
             cong: option.case_cong_weak)
qed

lemma erase_AllocateBlocks:
  "\<forall>bi \<in> set bis. print_holes g bi \<noteq> None \<Longrightarrow>
     AllocateBlocks g bis (erase_trace s) = map_option erase_trace (AllocateBlocks g bis s)"
  by (induction bis arbitrary: s) (simp_all add: erase_AllocateBlock split: option.split)

lemma erase_AllocateRegisters:
  assumes "holes_printable g"
  shows "AllocateRegisters g (erase_trace s) = map_option erase_trace (AllocateRegisters g s)"
proof -
  from assms have "\<forall>bi \<in> set [0..<length g]. print_holes g bi \<noteq> None"
    by (simp add: holes_printable_def list_all_iff)
  from erase_AllocateBlocks[OF this, of "trace TraceGraph s"]
  show ?thesis by (simp add: AllocateRegisters_def)
qed

lemma block_at_Some: "block_at g c = Some b \<longleftrightarrow> c < length g \<and> b = g ! c"
  by (auto simp: block_at_def)

lemma hole_chain_prints: "hole_chain g c \<Longrightarrow> holes_loop g c \<noteq> None"
proof (induction rule: hole_chain.induct)
  case (ends c b)
  then show ?case by (subst holes_loop.simps) simp
next
  case (loop_jump c b t)
  then show ?case by (subst holes_loop.simps) simp
next
  case (jumps c b t c')
  then show ?case by (subst holes_loop.simps) (auto simp: block_at_def)
qed

lemma set_next_length [simp]:
  "length (set_next_post_dominating_hole b hole g) = length g"
  by (simp add: set_next_post_dominating_hole_def)

lemma set_next_other:
  "c \<noteq> b \<Longrightarrow> block_at (set_next_post_dominating_hole b hole g) c = block_at g c"
  by (simp add: block_at_def set_next_post_dominating_hole_def)

lemma set_next_same:
  "b < length g \<Longrightarrow>
     block_at (set_next_post_dominating_hole b hole g) b =
       Some ((g ! b)\<lparr>control_node := (control_node (g ! b))\<lparr>next_post_dominating_hole := hole\<rparr>\<rparr>)"
  by (simp add: block_at_def set_next_post_dominating_hole_def)

lemma set_next_first_id:
  "map_option first_id (block_at (set_next_post_dominating_hole b hole g) c)
     = map_option first_id (block_at g c)"
  by (cases "c = b") (auto simp: block_at_def set_next_post_dominating_hole_def)

lemma set_next_kind:
  "c < length g \<Longrightarrow>
     kind (control_node (set_next_post_dominating_hole b hole g ! c)) = kind (control_node (g ! c))"
  by (cases "c = b") (simp_all add: set_next_post_dominating_hole_def)

lemma hole_chain_set_next:
  "hole_chain g c \<Longrightarrow> b < c \<Longrightarrow> hole_chain (set_next_post_dominating_hole b hole g) c"
proof (induction rule: hole_chain.induct)
  case (ends c blk)
  then have "block_at (set_next_post_dominating_hole b hole g) c = Some blk"
    by (simp add: set_next_other)
  from this ends(2) show ?case by (rule hole_chain.ends)
next
  case (loop_jump c blk t)
  then have "block_at (set_next_post_dominating_hole b hole g) c = Some blk"
    by (simp add: set_next_other)
  from this loop_jump(2) show ?case by (rule hole_chain.loop_jump)
next
  case (jumps c blk t c')
  then have blk: "block_at (set_next_post_dominating_hole b hole g) c = Some blk"
    by (simp add: set_next_other)
  from jumps have "hole_chain (set_next_post_dominating_hole b hole g) c'" by simp
  with blk jumps(2,3,4,5) show ?case
    by (intro hole_chain.jumps[of _ c blk t c']) simp_all
qed

lemma Nearest_set_next:
  assumes "c \<noteq> b"
  shows "NearestPostDominatingHole (set_next_post_dominating_hole b hole g) c
       = NearestPostDominatingHole g c"
proof (cases "block_at g c")
  case None
  with assms show ?thesis by (simp add: NearestPostDominatingHole_def set_next_other)
next
  case (Some blk)
  show ?thesis
  proof (cases "kind (control_node blk)")
    case (Jump t)
    have "block_at (set_next_post_dominating_hole b hole g) t \<bind> (\<lambda>target. F (first_id target))
            = block_at g t \<bind> (\<lambda>target. F (first_id target))" for F :: "nat \<Rightarrow> nat option option"
      by (cases "t = b") (auto simp: block_at_def set_next_post_dominating_hole_def)
    from this[of "\<lambda>x. if nd_id (control_node blk) + 1 = x
                       then Some (next_post_dominating_hole (control_node blk)) else Some (Some c)"]
         Some Jump assms
    show ?thesis
      by (simp add: NearestPostDominatingHole_def set_next_other)
  qed (use Some assms in \<open>simp_all add: NearestPostDominatingHole_def set_next_other\<close>)
qed

lemma forward_edges_nth:
  "forward_edges g \<Longrightarrow> b < length g \<Longrightarrow>
     (case kind (control_node (g ! b)) of
        Jump t \<Rightarrow> b < t \<and> t < length g
      | ConditionalControlNode if_true if_false \<Rightarrow>
          b < if_true \<and> if_true < length g \<and> b < if_false \<and> if_false < length g
      | JumpLoop t \<Rightarrow> True
      | Return \<Rightarrow> True)"
  by (simp add: forward_edges_def list_all_iff)

lemma forward_edges_set_next:
  "forward_edges g \<Longrightarrow> forward_edges (set_next_post_dominating_hole b hole g)"
  by (simp add: forward_edges_def list_all_iff set_next_kind cong: ControlKind.case_cong)

lemma hole_chain_in_range: "hole_chain g c \<Longrightarrow> c < length g"
  by (cases rule: hole_chain.cases) (auto simp: block_at_Some)

lemma merge_holes_step:
  assumes x: "block_at g x = Some xb" and y: "block_at g y = Some yb" and ne: "x \<noteq> y"
    and le: "nd_id (control_node xb) \<le> nd_id (control_node yb)"
  shows "merge_holes g (Some x) (Some y) =
           (case kind (control_node xb) of
              Return \<Rightarrow> Some (Some x)
            | JumpLoop t \<Rightarrow> Some (Some x)
            | Jump t \<Rightarrow> merge_holes g (next_post_dominating_hole (control_node xb)) (Some y)
            | ConditionalControlNode if_true if_false \<Rightarrow>
                merge_holes g (next_post_dominating_hole (control_node xb)) (Some y))"
  using assms by (subst merge_holes.simps) simp

lemma merge_holes_swap:
  assumes x: "block_at g x = Some xb" and y: "block_at g y = Some yb" and ne: "x \<noteq> y"
    and gt: "nd_id (control_node xb) > nd_id (control_node yb)"
  shows "merge_holes g (Some x) (Some y) =
           (case kind (control_node yb) of
              Return \<Rightarrow> Some (Some y)
            | JumpLoop t \<Rightarrow> Some (Some y)
            | Jump t \<Rightarrow> merge_holes g (next_post_dominating_hole (control_node yb)) (Some x)
            | ConditionalControlNode if_true if_false \<Rightarrow>
                merge_holes g (next_post_dominating_hole (control_node yb)) (Some x))"
  using assms by (subst merge_holes.simps) simp

lemma merge_holes_chain:
  "hole_chain g f \<Longrightarrow> hole_chain g sd \<Longrightarrow> lo \<le> f \<Longrightarrow> lo \<le> sd
     \<Longrightarrow> \<exists>h. merge_holes g (Some f) (Some sd) = Some (Some h) \<and> hole_chain g h \<and> lo \<le> h"
proof (induction "2 * length g - f - sd" arbitrary: f sd rule: less_induct)
  case less
  note f = hole_chain_in_range[OF less.prems(1)] and sd = hole_chain_in_range[OF less.prems(2)]
  show ?case
  proof (cases "f = sd")
    case True
    have "merge_holes g (Some f) (Some f) = Some (Some f)" by (subst merge_holes.simps) simp
    with True less.prems show ?thesis by auto
  next
    case False
    obtain fb where fb: "block_at g f = Some fb" using f by (simp add: block_at_def)
    obtain sb where sb: "block_at g sd = Some sb" using sd by (simp add: block_at_def)
    show ?thesis
    proof (cases "nd_id (control_node fb) > nd_id (control_node sb)")
      case True
      note eq = merge_holes_swap[OF fb sb False True]
      from less.prems(2) show ?thesis
      proof (cases rule: hole_chain.cases)
        case (ends b)
        with sb eq less.prems show ?thesis by auto
      next
        case (loop_jump b t)
        with sb eq less.prems show ?thesis by auto
      next
        case (jumps b t c')
        with sb eq have eq': "merge_holes g (Some f) (Some sd) = merge_holes g (Some c') (Some f)"
          by simp
        from jumps hole_chain_in_range[of g c'] f sd
        have m: "2 * length g - c' - f < 2 * length g - f - sd" by simp
        from jumps less.prems have "lo \<le> c'" by simp
        from less.hyps[OF m jumps(6) less.prems(1) this less.prems(3)] eq'
        show ?thesis by simp
      qed
    next
      case nogt: False
      then have le: "nd_id (control_node fb) \<le> nd_id (control_node sb)" by simp
      note eq = merge_holes_step[OF fb sb False le]
      from less.prems(1) show ?thesis
      proof (cases rule: hole_chain.cases)
        case (ends b)
        with fb eq less.prems show ?thesis by auto
      next
        case (loop_jump b t)
        with fb eq less.prems show ?thesis by auto
      next
        case (jumps b t c')
        with fb eq have eq': "merge_holes g (Some f) (Some sd) = merge_holes g (Some c') (Some sd)"
          by simp
        from jumps hole_chain_in_range[of g c'] f sd
        have m: "2 * length g - c' - sd < 2 * length g - f - sd" by simp
        from jumps less.prems have "lo \<le> c'" by simp
        from less.hyps[OF m jumps(6) less.prems(2) this less.prems(4)] eq'
        show ?thesis by simp
      qed
    qed
  qed
qed

lemma holes_computedD:
  "holes_computed k g \<Longrightarrow> k \<le> c \<Longrightarrow> c < length g \<Longrightarrow>
     \<exists>h. NearestPostDominatingHole g c = Some (Some h) \<and> c \<le> h \<and> hole_chain g h"
  by (simp add: holes_computed_def)

lemma holes_computed_keep:
  assumes "holes_computed (Suc k) g"
    and "\<exists>h. NearestPostDominatingHole g k = Some (Some h) \<and> k \<le> h \<and> hole_chain g h"
  shows "holes_computed k g"
  unfolding holes_computed_def
proof (intro allI impI)
  fix c assume c: "k \<le> c" "c < length g"
  show "\<exists>h. NearestPostDominatingHole g c = Some (Some h) \<and> c \<le> h \<and> hole_chain g h"
  proof (cases "c = k")
    case True
    with assms(2) show ?thesis by simp
  next
    case False
    with c have "Suc k \<le> c" by simp
    from holes_computedD[OF assms(1) this c(2)] show ?thesis .
  qed
qed

lemma holes_computed_step:
  assumes "holes_computed (Suc k) g"
    and "\<exists>h. NearestPostDominatingHole (set_next_post_dominating_hole k hole g) k = Some (Some h)
            \<and> k \<le> h \<and> hole_chain (set_next_post_dominating_hole k hole g) h"
  shows "holes_computed k (set_next_post_dominating_hole k hole g)"
  unfolding holes_computed_def
proof (intro allI impI)
  let ?g = "set_next_post_dominating_hole k hole g"
  fix c assume c: "k \<le> c" "c < length ?g"
  show "\<exists>h. NearestPostDominatingHole ?g c = Some (Some h) \<and> c \<le> h \<and> hole_chain ?g h"
  proof (cases "c = k")
    case True
    with assms(2) show ?thesis by simp
  next
    case False
    with c have ck: "Suc k \<le> c" "c < length g" by simp_all
    from holes_computedD[OF assms(1) ck] obtain h where
      h: "NearestPostDominatingHole g c = Some (Some h)" "c \<le> h" "hole_chain g h"
      by blast
    from ck h(2) have "k < h" by simp
    from hole_chain_set_next[OF h(3) this] Nearest_set_next[OF False] h(1,2)
    show ?thesis by auto
  qed
qed

lemma ComputePostDominatingHoles_loop_computes:
  "k \<le> length g \<Longrightarrow> forward_edges g \<Longrightarrow> holes_computed k g \<Longrightarrow>
     \<exists>g'. ComputePostDominatingHoles_loop (rev [0..<k]) g = Some g'
        \<and> length g' = length g \<and> forward_edges g' \<and> holes_computed 0 g'"
proof (induction k arbitrary: g)
  case 0
  then show ?case by simp
next
  case (Suc k)
  from Suc.prems(1) have k: "k < length g" by simp
  then have blk: "block_at g k = Some (g ! k)" by (simp add: block_at_def)
  note fw = forward_edges_nth[OF Suc.prems(2) k]
  have IH: "\<exists>g'. ComputePostDominatingHoles_loop (rev [0..<k]) g1 = Some g'
        \<and> length g' = length g \<and> forward_edges g' \<and> holes_computed 0 g'"
    if "length g1 = length g" "forward_edges g1" "holes_computed k g1" for g1
    using Suc.IH[of g1] that k by simp
  show ?case
  proof (cases "kind (control_node (g ! k))")
    case Return
    have "hole_chain g k" using blk Return by (rule hole_chain.ends)
    moreover have "NearestPostDominatingHole g k = Some (Some k)"
      using blk Return by (simp add: NearestPostDominatingHole_def)
    ultimately have "holes_computed k g"
      using holes_computed_keep[OF Suc.prems(3)] by blast
    from IH[OF _ Suc.prems(2) this] blk Return show ?thesis by simp
  next
    case (JumpLoop t)
    have "hole_chain g k" using blk JumpLoop by (rule hole_chain.loop_jump)
    moreover have "NearestPostDominatingHole g k = Some (Some k)"
      using blk JumpLoop by (simp add: NearestPostDominatingHole_def)
    ultimately have "holes_computed k g"
      using holes_computed_keep[OF Suc.prems(3)] by blast
    from IH[OF _ Suc.prems(2) this] blk JumpLoop show ?thesis by simp
  next
    case (Jump t)
    with fw have t: "k < t" "t < length g" by simp_all
    then have "Suc k \<le> t" by simp
    from holes_computedD[OF Suc.prems(3) this t(2)] obtain h where
      h: "NearestPostDominatingHole g t = Some (Some h)" "t \<le> h" "hole_chain g h"
      by blast
    let ?g = "set_next_post_dominating_hole k (Some h) g"
    from t h(2) have kh: "k < h" by simp
    have ch: "hole_chain ?g h" by (rule hole_chain_set_next[OF h(3) kh])
    have bk: "block_at ?g k =
        Some ((g ! k)\<lparr>control_node := (control_node (g ! k))\<lparr>next_post_dominating_hole := Some h\<rparr>\<rparr>)"
      by (rule set_next_same[OF k])
    have "block_at ?g t = block_at g t" using t by (intro set_next_other) simp
    then have bt: "block_at ?g t = Some (g ! t)" using t by (simp add: block_at_def)
    have "\<exists>h'. NearestPostDominatingHole ?g k = Some (Some h') \<and> k \<le> h' \<and> hole_chain ?g h'"
    proof (cases "nd_id (control_node (g ! k)) + 1 = first_id (g ! t)")
      case True
      with bk bt Jump have "NearestPostDominatingHole ?g k = Some (Some h)"
        by (simp add: NearestPostDominatingHole_def)
      with kh ch show ?thesis by auto
    next
      case False
      with bk bt Jump have "NearestPostDominatingHole ?g k = Some (Some k)"
        by (simp add: NearestPostDominatingHole_def)
      moreover have "hole_chain ?g k"
        using bk by (rule hole_chain.jumps[where t = t and c' = h]) (use Jump t kh ch in simp_all)
      ultimately show ?thesis by auto
    qed
    from holes_computed_step[OF Suc.prems(3) this] have "holes_computed k ?g" .
    from IH[OF _ forward_edges_set_next[OF Suc.prems(2)] this] blk Jump h(1)
    show ?thesis by simp
  next
    case (ConditionalControlNode if_true if_false)
    with fw have t: "k < if_true" "if_true < length g" "k < if_false" "if_false < length g"
      by simp_all
    from t have st: "Suc k \<le> if_true" "Suc k \<le> if_false" by simp_all
    from holes_computedD[OF Suc.prems(3) st(1) t(2)] obtain fa where
      fa: "NearestPostDominatingHole g if_true = Some (Some fa)" "if_true \<le> fa" "hole_chain g fa"
      by blast
    from holes_computedD[OF Suc.prems(3) st(2) t(4)] obtain sc where
      sc: "NearestPostDominatingHole g if_false = Some (Some sc)" "if_false \<le> sc" "hole_chain g sc"
      by blast
    from t fa(2) sc(2) have "Suc k \<le> fa" "Suc k \<le> sc" by simp_all
    from merge_holes_chain[OF fa(3) sc(3) this] obtain h where
      h: "merge_holes g (Some fa) (Some sc) = Some (Some h)" "hole_chain g h" "Suc k \<le> h"
      by blast
    let ?g = "set_next_post_dominating_hole k (Some h) g"
    from h(3) have kh: "k < h" by simp
    have ch: "hole_chain ?g h" by (rule hole_chain_set_next[OF h(2) kh])
    have bk: "block_at ?g k =
        Some ((g ! k)\<lparr>control_node := (control_node (g ! k))\<lparr>next_post_dominating_hole := Some h\<rparr>\<rparr>)"
      by (rule set_next_same[OF k])
    with ConditionalControlNode have "NearestPostDominatingHole ?g k = Some (Some h)"
      by (simp add: NearestPostDominatingHole_def)
    with kh ch have
      "\<exists>h'. NearestPostDominatingHole ?g k = Some (Some h') \<and> k \<le> h' \<and> hole_chain ?g h'"
      by auto
    from holes_computed_step[OF Suc.prems(3) this] have "holes_computed k ?g" .
    from IH[OF _ forward_edges_set_next[OF Suc.prems(2)] this] blk ConditionalControlNode fa(1) sc(1) h(1)
    show ?thesis by simp
  qed
qed

lemma ComputePostDominatingHoles_total:
  assumes "forward_edges g"
  shows "\<exists>g'. ComputePostDominatingHoles g = Some g' \<and> length g' = length g
            \<and> forward_edges g' \<and> holes_computed 0 g'"
proof -
  have "holes_computed (length g) g" by (simp add: holes_computed_def)
  from ComputePostDominatingHoles_loop_computes[OF _ assms this]
  show ?thesis by (simp add: ComputePostDominatingHoles_def)
qed

lemma holes_computed_printable:
  assumes "holes_computed 0 g"
  shows "holes_printable g"
  unfolding holes_printable_def list_all_iff
proof
  fix bi assume "bi \<in> set [0..<length g]"
  then have "bi < length g" by simp
  from holes_computedD[OF assms _ this] obtain h where
    h: "NearestPostDominatingHole g bi = Some (Some h)" "hole_chain g h"
    by auto
  from hole_chain_in_range[OF h(2)] have b: "block_at g h = Some (g ! h)" by (simp add: block_at_def)
  from hole_chain_prints[OF h(2)] obtain evs where "holes_loop g h = Some evs" by auto
  with h(1) b show "print_holes g bi \<noteq> None"
    by (simp add: print_holes_def split: ControlKind.split)
qed

text \<open>
  Claim C9. For every graph whose jumps and branches go to later blocks and every state of the
  allocator, the run of the constructor (the pass that computes the post-dominating holes,
  then \<^verbatim>\<open>AllocateRegisters\<close>) with the trace flag set and the run with the flag cleared
  either both abort or end with the same graph and in states that differ in the trace only:
  the operands of inputs and results, the gap moves, the register states of the blocks and
  the number of stack slots are the same.
\<close>

theorem trace_flag_does_not_change_allocation:
  assumes "forward_edges g"
  shows "map_option (apsnd erase_trace) (StraightForwardRegisterAllocator g (s\<lparr>trace_regalloc := True\<rparr>))
       = map_option (apsnd erase_trace) (StraightForwardRegisterAllocator g (s\<lparr>trace_regalloc := False\<rparr>))"
proof -
  from ComputePostDominatingHoles_total[OF assms] obtain g' where
    g': "ComputePostDominatingHoles g = Some g'" "holes_computed 0 g'" by blast
  note p = holes_computed_printable[OF g'(2)]
  have "map_option erase_trace (AllocateRegisters g' (s\<lparr>trace_regalloc := True\<rparr>))
       = map_option erase_trace (AllocateRegisters g' (s\<lparr>trace_regalloc := False\<rparr>))"
    using erase_AllocateRegisters[OF p, of "s\<lparr>trace_regalloc := True\<rparr>"]
          erase_AllocateRegisters[OF p, of "s\<lparr>trace_regalloc := False\<rparr>"]
    by simp
  then show ?thesis
    by (cases "AllocateRegisters g' (s\<lparr>trace_regalloc := True\<rparr>)";
        cases "AllocateRegisters g' (s\<lparr>trace_regalloc := False\<rparr>)")
       (simp_all add: StraightForwardRegisterAllocator_def g'(1))
qed

theorem trace_flag_does_not_change_allocation_witness:
  "forward_edges diamond_graph
   \<and> map_option (apsnd erase_trace)
        (StraightForwardRegisterAllocator diamond_graph ((diamond_start False)\<lparr>trace_regalloc := True\<rparr>))
       = map_option (apsnd erase_trace)
           (StraightForwardRegisterAllocator diamond_graph ((diamond_start False)\<lparr>trace_regalloc := False\<rparr>))
   \<and> map_option (length \<circ> os \<circ> snd)
        (StraightForwardRegisterAllocator diamond_graph ((diamond_start False)\<lparr>trace_regalloc := True\<rparr>))
       = Some 25
   \<and> map_option (length \<circ> os \<circ> snd)
        (StraightForwardRegisterAllocator diamond_graph ((diamond_start False)\<lparr>trace_regalloc := False\<rparr>))
       = Some 0
   \<and> map_option (map (next_post_dominating_hole \<circ> control_node) \<circ> fst)
        (StraightForwardRegisterAllocator diamond_graph ((diamond_start False)\<lparr>trace_regalloc := True\<rparr>))
       = Some [Some 3, Some 3, Some 3, None]"
proof -
  have h: "forward_edges diamond_graph" by code_simp
  have "map_option (length \<circ> os \<circ> snd)
        (StraightForwardRegisterAllocator diamond_graph ((diamond_start False)\<lparr>trace_regalloc := True\<rparr>))
       = Some 25" by code_simp
  moreover have "map_option (length \<circ> os \<circ> snd)
        (StraightForwardRegisterAllocator diamond_graph ((diamond_start False)\<lparr>trace_regalloc := False\<rparr>))
       = Some 0" by code_simp
  moreover have "map_option (map (next_post_dominating_hole \<circ> control_node) \<circ> fst)
        (StraightForwardRegisterAllocator diamond_graph ((diamond_start False)\<lparr>trace_regalloc := True\<rparr>))
       = Some [Some 3, Some 3, Some 3, None]" by code_simp
  ultimately show ?thesis
    using h trace_flag_does_not_change_allocation[OF h, of "diamond_start False"] by simp
qed

end
